theory Spec2Isabelle
  imports Complex_Main "HOL-Library.Word"
begin

unbundle bit_operations_syntax

section \<open>JavaScript strings\<close>

text \<open>
  A JavaScript string is a sequence of UTF-16 code units. The model uses the type
  \<open>string\<close>, whose characters are the code units U+0000 to U+00FF (Latin-1): on those
  the runtime functions used by the services (\<open>trim\<close>, \<open>toLowerCase\<close>, the regular
  expression class \<open>\s\<close> and case-insensitive matching) are written out completely
  below. Strings with code units above U+00FF are outside the model.
\<close>

text \<open>
  The class \<open>\s\<close> and the characters removed by \<open>String.prototype.trim\<close> are the same
  set (WhiteSpace and LineTerminator of ECMAScript). Below U+0100 these are TAB, LF, VT,
  FF, CR, SPACE and NO-BREAK SPACE.
\<close>

definition isWhiteSpace :: "char \<Rightarrow> bool" where
  "isWhiteSpace c \<longleftrightarrow> (of_char c :: nat) \<in> {9, 10, 11, 12, 13, 32, 160}"

text \<open>\<open>String.prototype.trim\<close>: strip white space from both ends.\<close>

definition trim :: "string \<Rightarrow> string" where
  "trim s = rev (dropWhile isWhiteSpace (rev (dropWhile isWhiteSpace s)))"

text \<open>
  \<open>String.prototype.toLowerCase\<close> on Latin-1: A to Z, and U+00C0 to U+00DE except the
  multiplication sign U+00D7, move up by 32; every other code unit is unchanged.
\<close>

definition lowerChar :: "char \<Rightarrow> char" where
  "lowerChar c =
     (let n = (of_char c :: nat)
      in if (65 \<le> n \<and> n \<le> 90) \<or> (192 \<le> n \<and> n \<le> 222 \<and> n \<noteq> 215)
         then char_of (n + 32) else c)"

definition toLowerCase :: "string \<Rightarrow> string" where
  "toLowerCase s = map lowerChar s"

text \<open>\<open>String.prototype.includes\<close>: the needle occurs as a contiguous substring.\<close>

fun str_includes :: "string \<Rightarrow> string \<Rightarrow> bool" where
  "str_includes [] needle = (needle = [])"
| "str_includes (c # cs) needle =
     (take (length needle) (c # cs) = needle \<or> str_includes cs needle)"

section \<open>Regular expressions of the statement validator\<close>

text \<open>
  The patterns of \<open>validateReadOnly\<close> all have the shape \<open>/^\s*VERB\s/i\<close>. A pattern
  is a list of atoms; \<open>rmatch\<close> is the backtracking matcher anchored at the start of
  the input (\<open>^\<close>, no \<open>m\<close> flag); nothing anchors the end.
\<close>

datatype atom = WsStar | Ws | Lit char

text \<open>
  Canonicalize of ECMAScript for the \<open>i\<close> flag without the \<open>u\<close> flag: the code unit
  of the upper-case form when that is a single code unit, otherwise the code unit
  itself. U+00FF maps to U+0178, U+00B5 to U+039C; the upper-case form of U+00DF is two
  code units, so it stays.
\<close>

definition canonicalize :: "char \<Rightarrow> nat" where
  "canonicalize c =
     (let n = (of_char c :: nat)
      in if 97 \<le> n \<and> n \<le> 122 then n - 32
         else if 224 \<le> n \<and> n \<le> 254 \<and> n \<noteq> 247 then n - 32
         else if n = 255 then 376
         else if n = 181 then 924
         else n)"

fun rmatch :: "atom list \<Rightarrow> string \<Rightarrow> bool" where
  "rmatch [] s = True"
| "rmatch (Lit c # r) [] = False"
| "rmatch (Lit c # r) (x # xs) = (canonicalize x = canonicalize c \<and> rmatch r xs)"
| "rmatch (Ws # r) [] = False"
| "rmatch (Ws # r) (x # xs) = (isWhiteSpace x \<and> rmatch r xs)"
| "rmatch (WsStar # r) [] = rmatch r []"
| "rmatch (WsStar # r) (x # xs) =
     ((isWhiteSpace x \<and> rmatch (WsStar # r) xs) \<or> rmatch r (x # xs))"

text \<open>The pattern \<open>/^\s*VERB\s/i\<close>.\<close>

definition verbPattern :: "string \<Rightarrow> atom list" where
  "verbPattern verb = WsStar # map Lit verb @ [Ws]"

section \<open>Statement validator (\<open>TrinoService.validateReadOnly\<close>)\<close>

definition forbiddenVerbs :: "string list" where
  "forbiddenVerbs = [''INSERT'', ''UPDATE'', ''DELETE'', ''DROP'', ''CREATE'', ''ALTER'',
                     ''TRUNCATE'', ''GRANT'', ''REVOKE'', ''MERGE'']"

definition allowedVerbs :: "string list" where
  "allowedVerbs = [''SELECT'', ''WITH'', ''SHOW'', ''DESCRIBE'', ''EXPLAIN'']"

definition forbiddenPatterns :: "atom list list" where
  "forbiddenPatterns = map verbPattern forbiddenVerbs"

definition allowedPatterns :: "atom list list" where
  "allowedPatterns = map verbPattern allowedVerbs"

text \<open>The two messages that \<open>validateReadOnly\<close> throws.\<close>

definition writeForbidden :: string where
  "writeForbidden = ''Only SELECT queries are allowed. Write operations are forbidden.''"

definition notPermitted :: string where
  "notPermitted = ''Only SELECT, SHOW, DESCRIBE, and EXPLAIN queries are allowed.''"

text \<open>
  A thrown \<open>Error\<close> is \<open>Inl\<close> of its message; the normal return value \<open>true\<close> is
  \<open>Inr True\<close>. The \<open>for\<close> loop throws at the first forbidden pattern that matches.
\<close>

definition validateReadOnly :: "string \<Rightarrow> string + bool" where
  "validateReadOnly sql =
     (if list_ex (\<lambda>pattern. rmatch pattern sql) forbiddenPatterns then Inl writeForbidden
      else if \<not> list_ex (\<lambda>pattern. rmatch pattern sql) allowedPatterns then Inl notPermitted
      else Inr True)"

section \<open>MD5 (\<open>crypto.createHash('md5')\<close>)\<close>

text \<open>
  The digest of the runtime's \<open>crypto\<close> module is MD5 as RFC 1321 defines it. A step
  of a round is the RFC's \<open>[abcd k s i]\<close>: the tables below list, for every step, the
  message word index \<open>k\<close>, the rotation \<open>s\<close> and the constant \<open>T[i]\<close>; the registers
  rotate after each step. Words are 32 bits and \<open>+\<close> wraps.
\<close>

type_synonym md5_state = "32 word \<times> 32 word \<times> 32 word \<times> 32 word"

definition rotl32 :: "nat \<Rightarrow> 32 word \<Rightarrow> 32 word" where
  "rotl32 n x = push_bit n x OR drop_bit (32 - n) x"

definition md5_F :: "32 word \<Rightarrow> 32 word \<Rightarrow> 32 word \<Rightarrow> 32 word" where
  "md5_F x y z = (x AND y) OR (NOT x AND z)"

definition md5_G :: "32 word \<Rightarrow> 32 word \<Rightarrow> 32 word \<Rightarrow> 32 word" where
  "md5_G x y z = (x AND z) OR (y AND NOT z)"

definition md5_H :: "32 word \<Rightarrow> 32 word \<Rightarrow> 32 word \<Rightarrow> 32 word" where
  "md5_H x y z = x XOR y XOR z"

definition md5_I :: "32 word \<Rightarrow> 32 word \<Rightarrow> 32 word \<Rightarrow> 32 word" where
  "md5_I x y z = y XOR (x OR NOT z)"

definition round1 :: "(nat \<times> nat \<times> 32 word) list" where
  "round1 =
     [(0, 7, 0xd76aa478), (1, 12, 0xe8c7b756), (2, 17, 0x242070db), (3, 22, 0xc1bdceee),
      (4, 7, 0xf57c0faf), (5, 12, 0x4787c62a), (6, 17, 0xa8304613), (7, 22, 0xfd469501),
      (8, 7, 0x698098d8), (9, 12, 0x8b44f7af), (10, 17, 0xffff5bb1), (11, 22, 0x895cd7be),
      (12, 7, 0x6b901122), (13, 12, 0xfd987193), (14, 17, 0xa679438e), (15, 22, 0x49b40821)]"

definition round2 :: "(nat \<times> nat \<times> 32 word) list" where
  "round2 =
     [(1, 5, 0xf61e2562), (6, 9, 0xc040b340), (11, 14, 0x265e5a51), (0, 20, 0xe9b6c7aa),
      (5, 5, 0xd62f105d), (10, 9, 0x02441453), (15, 14, 0xd8a1e681), (4, 20, 0xe7d3fbc8),
      (9, 5, 0x21e1cde6), (14, 9, 0xc33707d6), (3, 14, 0xf4d50d87), (8, 20, 0x455a14ed),
      (13, 5, 0xa9e3e905), (2, 9, 0xfcefa3f8), (7, 14, 0x676f02d9), (12, 20, 0x8d2a4c8a)]"

definition round3 :: "(nat \<times> nat \<times> 32 word) list" where
  "round3 =
     [(5, 4, 0xfffa3942), (8, 11, 0x8771f681), (11, 16, 0x6d9d6122), (14, 23, 0xfde5380c),
      (1, 4, 0xa4beea44), (4, 11, 0x4bdecfa9), (7, 16, 0xf6bb4b60), (10, 23, 0xbebfbc70),
      (13, 4, 0x289b7ec6), (0, 11, 0xeaa127fa), (3, 16, 0xd4ef3085), (6, 23, 0x04881d05),
      (9, 4, 0xd9d4d039), (12, 11, 0xe6db99e5), (15, 16, 0x1fa27cf8), (2, 23, 0xc4ac5665)]"

definition round4 :: "(nat \<times> nat \<times> 32 word) list" where
  "round4 =
     [(0, 6, 0xf4292244), (7, 10, 0x432aff97), (14, 15, 0xab9423a7), (5, 21, 0xfc93a039),
      (12, 6, 0x655b59c3), (3, 10, 0x8f0ccc92), (10, 15, 0xffeff47d), (1, 21, 0x85845dd1),
      (8, 6, 0x6fa87e4f), (15, 10, 0xfe2ce6e0), (6, 15, 0xa3014314), (13, 21, 0x4e0811a1),
      (4, 6, 0xf7537e82), (11, 10, 0xbd3af235), (2, 15, 0x2ad7d2bb), (9, 21, 0xeb86d391)]"

fun md5_op :: "(32 word \<Rightarrow> 32 word \<Rightarrow> 32 word \<Rightarrow> 32 word) \<Rightarrow> 32 word list \<Rightarrow> md5_state
    \<Rightarrow> nat \<times> nat \<times> 32 word \<Rightarrow> md5_state" where
  "md5_op f X (a, b, c, d) (k, s, t) = (d, b + rotl32 s (a + f b c d + X ! k + t), b, c)"

fun md5_add :: "md5_state \<Rightarrow> md5_state \<Rightarrow> md5_state" where
  "md5_add (a0, b0, c0, d0) (a, b, c, d) = (a0 + a, b0 + b, c0 + c, d0 + d)"

text \<open>One 512-bit block \<open>X\<close> (sixteen words) is folded into the state.\<close>

definition md5_block :: "md5_state \<Rightarrow> 32 word list \<Rightarrow> md5_state" where
  "md5_block st X =
     md5_add st
       (foldl (md5_op md5_I X)
         (foldl (md5_op md5_H X)
           (foldl (md5_op md5_G X)
             (foldl (md5_op md5_F X) st round1) round2) round3) round4)"

text \<open>Bytes are numbers below 256; words are read and written low byte first.\<close>

fun le_words :: "nat list \<Rightarrow> 32 word list" where
  "le_words (b0 # b1 # b2 # b3 # bs) =
     of_nat (b0 + 256 * b1 + 65536 * b2 + 16777216 * b3) # le_words bs"
| "le_words bs = []"

definition le_bytes4 :: "nat \<Rightarrow> nat list" where
  "le_bytes4 n = [n mod 256, n div 256 mod 256, n div 65536 mod 256, n div 16777216 mod 256]"

text \<open>
  Padding: a single 1 bit, zeros up to 56 modulo 64 bytes, then the length in bits as
  a 64-bit number, low word first.
\<close>

definition md5_pad :: "nat list \<Rightarrow> nat list" where
  "md5_pad msg =
     (let bits = 8 * length msg
      in msg @ [128] @ replicate ((119 - length msg mod 64) mod 64) 0
           @ le_bytes4 (bits mod 4294967296) @ le_bytes4 (bits div 4294967296 mod 4294967296))"

fun blocks :: "32 word list \<Rightarrow> 32 word list list" where
  "blocks [] = []"
| "blocks (w # ws) = take 16 (w # ws) # blocks (drop 16 (w # ws))"

definition md5 :: "nat list \<Rightarrow> md5_state" where
  "md5 msg = foldl md5_block (0x67452301, 0xefcdab89, 0x98badcfe, 0x10325476)
               (blocks (le_words (md5_pad msg)))"

text \<open>\<open>digest('hex')\<close>: the sixteen bytes of the state as lower-case hexadecimal.\<close>

definition hexDigit :: "nat \<Rightarrow> char" where
  "hexDigit n = ''0123456789abcdef'' ! n"

definition hexByte :: "nat \<Rightarrow> string" where
  "hexByte b = [hexDigit (b div 16), hexDigit (b mod 16)]"

fun digestHex :: "md5_state \<Rightarrow> string" where
  "digestHex (a, b, c, d) =
     concat (map hexByte
       (le_bytes4 (unat a) @ le_bytes4 (unat b) @ le_bytes4 (unat c) @ le_bytes4 (unat d)))"

text \<open>
  \<open>update(string)\<close> hashes the UTF-8 encoding of the string: one byte for a code unit
  below U+0080, two bytes for the others below U+0100.
\<close>

definition utf8 :: "string \<Rightarrow> nat list" where
  "utf8 s = concat (map (\<lambda>c. let n = (of_char c :: nat)
                               in if n < 128 then [n] else [192 + n div 64, 128 + n mod 64]) s)"

definition md5hex :: "string \<Rightarrow> string" where
  "md5hex s = digestHex (md5 (utf8 s))"

section \<open>Query cache (\<open>CacheService\<close>)\<close>

text \<open>\<open>generateKey\<close>: the MD5 of the trimmed, lower-cased statement, in hexadecimal.\<close>

definition generateKey :: "string \<Rightarrow> string" where
  "generateKey sql = md5hex (toLowerCase (trim sql))"

text \<open>
  A JavaScript \<open>Map\<close> keeps its entries in insertion order: an association list with
  distinct keys, oldest entry first. \<open>set\<close> on a resident key replaces the value where
  the entry stands; on a new key it appends. \<open>keys().next().value\<close> is the first key, or
  \<open>undefined\<close> (here \<open>None\<close>) when the map is empty, and deleting \<open>undefined\<close> removes
  nothing.
\<close>

type_synonym ('k, 'v) jsmap = "('k \<times> 'v) list"

definition Map_get :: "('k, 'v) jsmap \<Rightarrow> 'k \<Rightarrow> 'v option" where
  "Map_get m k = map_of m k"

definition Map_has :: "('k, 'v) jsmap \<Rightarrow> 'k \<Rightarrow> bool" where
  "Map_has m k \<longleftrightarrow> map_of m k \<noteq> None"

fun Map_set :: "('k, 'v) jsmap \<Rightarrow> 'k \<Rightarrow> 'v \<Rightarrow> ('k, 'v) jsmap" where
  "Map_set [] k v = [(k, v)]"
| "Map_set ((k', v') # m) k v = (if k' = k then (k, v) # m else (k', v') # Map_set m k v)"

definition Map_delete :: "('k, 'v) jsmap \<Rightarrow> 'k \<Rightarrow> ('k, 'v) jsmap" where
  "Map_delete m k = filter (\<lambda>e. fst e \<noteq> k) m"

definition Map_size :: "('k, 'v) jsmap \<Rightarrow> nat" where
  "Map_size m = length m"

definition Map_firstKey :: "('k, 'v) jsmap \<Rightarrow> 'k option" where
  "Map_firstKey m = (case m of [] \<Rightarrow> None | e # _ \<Rightarrow> Some (fst e))"

text \<open>
  A cache entry and the service object. Times are milliseconds as \<open>Date.now()\<close> reports
  them; every call takes the clock readings it makes as arguments.
\<close>

record 'v item =
  item_value :: 'v
  expiresAt :: int
  createdAt :: int

record 'v CacheService =
  cache :: "(string, 'v item) jsmap"
  maxSize :: nat
  defaultTTL :: int
  hits :: nat
  misses :: nat

text \<open>The constructor.\<close>

definition newCacheService :: "'v CacheService" where
  "newCacheService =
     \<lparr>cache = [], maxSize = 1000, defaultTTL = 5 * 60 * 1000, hits = 0, misses = 0\<rparr>"

text \<open>
  \<open>get(sql)\<close> at clock reading \<open>now\<close>: the result is \<open>None\<close> for the \<open>null\<close> of a
  miss and \<open>Some\<close> of the stored value for a hit.
\<close>

definition cache_get :: "'v CacheService \<Rightarrow> string \<Rightarrow> int \<Rightarrow> 'v option \<times> 'v CacheService" where
  "cache_get this sql now =
     (let key = generateKey sql
      in case Map_get (cache this) key of
           None \<Rightarrow> (None, this\<lparr>misses := misses this + 1\<rparr>)
         | Some it \<Rightarrow>
             if now > expiresAt it
             then (None, this\<lparr>cache := Map_delete (cache this) key, misses := misses this + 1\<rparr>)
             else (Some (item_value it), this\<lparr>hits := hits this + 1\<rparr>))"

text \<open>
  \<open>set(sql, value, ttl = this.defaultTTL)\<close>: \<open>ttl\<close> is \<open>None\<close> when the argument is
  omitted. \<open>now\<close> and \<open>now'\<close> are the two readings of the clock, for \<open>expiresAt\<close> and
  for \<open>createdAt\<close>.
\<close>

definition cache_set ::
    "'v CacheService \<Rightarrow> string \<Rightarrow> 'v \<Rightarrow> int option \<Rightarrow> int \<Rightarrow> int \<Rightarrow> 'v CacheService" where
  "cache_set this sql v ttl now now' =
     (let key = generateKey sql;
          t = (case ttl of None \<Rightarrow> defaultTTL this | Some t \<Rightarrow> t);
          c = (if Map_size (cache this) \<ge> maxSize this
               then (case Map_firstKey (cache this) of
                       None \<Rightarrow> cache this
                     | Some firstKey \<Rightarrow> Map_delete (cache this) firstKey)
               else cache this)
      in this\<lparr>cache := Map_set c key \<lparr>item_value = v, expiresAt = now + t, createdAt = now'\<rparr>\<rparr>)"

definition cache_has :: "'v CacheService \<Rightarrow> string \<Rightarrow> int \<Rightarrow> bool \<times> 'v CacheService" where
  "cache_has this sql now =
     (let key = generateKey sql
      in case Map_get (cache this) key of
           None \<Rightarrow> (False, this)
         | Some it \<Rightarrow>
             if now > expiresAt it then (False, this\<lparr>cache := Map_delete (cache this) key\<rparr>)
             else (True, this))"

definition cache_clear :: "'v CacheService \<Rightarrow> 'v CacheService" where
  "cache_clear this = this\<lparr>cache := []\<rparr>"

text \<open>A run of the service: the calls a client makes, in order.\<close>

datatype 'v cache_op =
    Get string int
  | Set string 'v "int option" int int
  | Has string int
  | Clear

fun cache_step :: "'v CacheService \<Rightarrow> 'v cache_op \<Rightarrow> 'v CacheService" where
  "cache_step this (Get sql now) = snd (cache_get this sql now)"
| "cache_step this (Set sql v ttl now now') = cache_set this sql v ttl now now'"
| "cache_step this (Has sql now) = snd (cache_has this sql now)"
| "cache_step this Clear = cache_clear this"

definition cache_run :: "'v CacheService \<Rightarrow> 'v cache_op list \<Rightarrow> 'v CacheService" where
  "cache_run this calls = foldl cache_step this calls"

section \<open>Connection pool (\<open>TrinoService.getClient\<close>)\<close>

text \<open>
  A client handle is an object: \<open>client_id\<close> is its identity, the remaining fields are
  the options \<open>Trino.create\<close> was given. The service counts the objects it has created
  in \<open>created\<close>, so that every \<open>Trino.create\<close> yields an object that did not exist before.
\<close>

record client =
  client_id :: nat
  server :: string
  catalog :: string
  schema :: string
  auth :: string

record TrinoService =
  serverUrl :: string
  user :: string
  clientPool :: "(string, client) jsmap"
  maxPoolSize :: nat
  created :: nat

definition newTrinoService :: "string \<Rightarrow> string \<Rightarrow> TrinoService" where
  "newTrinoService url usr =
     \<lparr>serverUrl = url, user = usr, clientPool = [], maxPoolSize = 10, created = 0\<rparr>"

text \<open>
  \<open>getClient\<close>: the pool key is the template literal \<open>`${catalog}.${schema}`\<close>;
  \<open>has(poolKey)\<close> followed by \<open>get(poolKey)\<close> is the one lookup below, since the pool
  only ever stores client objects.
\<close>

definition poolKeyOf :: "string \<Rightarrow> string \<Rightarrow> string" where
  "poolKeyOf cat sch = cat @ ''.'' @ sch"

definition getClient :: "TrinoService \<Rightarrow> string \<Rightarrow> string \<Rightarrow> client \<times> TrinoService" where
  "getClient this cat sch =
     (let poolKey = poolKeyOf cat sch
      in case Map_get (clientPool this) poolKey of
           Some pooled \<Rightarrow> (pooled, this)
         | None \<Rightarrow>
             let c = \<lparr>client_id = created this, server = serverUrl this, catalog = cat,
                      schema = sch, auth = user this\<rparr>;
                 this' = this\<lparr>created := created this + 1\<rparr>
             in if Map_size (clientPool this') < maxPoolSize this'
                then (c, this'\<lparr>clientPool := Map_set (clientPool this') poolKey c\<rparr>)
                else (c, this'))"

text \<open>A sequence of \<open>getClient\<close> calls whose handles are dropped.\<close>

fun getClients :: "TrinoService \<Rightarrow> (string \<times> string) list \<Rightarrow> TrinoService" where
  "getClients this [] = this"
| "getClients this ((cat, sch) # ks) = getClients (snd (getClient this cat sch)) ks"

section \<open>JavaScript values\<close>

text \<open>
  A number is a finite value, an infinity or NaN. Finite values are exact rationals:
  the rounding of binary64 arithmetic and the sign of zero are not modelled, so a
  computation agrees with the runtime when every intermediate value is exactly
  representable (integers of magnitude below \<open>2^53\<close>, as in the evaluations below).
  Division by zero does not throw: it yields NaN or an infinity.
\<close>

datatype jsnum = Fin rat | PosInf | NegInf | NaN

definition inf_of :: "bool \<Rightarrow> jsnum" where
  "inf_of positive = (if positive then PosInf else NegInf)"

fun num_neg :: "jsnum \<Rightarrow> jsnum" where
  "num_neg (Fin a) = Fin (- a)"
| "num_neg PosInf = NegInf"
| "num_neg NegInf = PosInf"
| "num_neg NaN = NaN"

fun num_add :: "jsnum \<Rightarrow> jsnum \<Rightarrow> jsnum" where
  "num_add (Fin a) (Fin b) = Fin (a + b)"
| "num_add NaN _ = NaN"
| "num_add _ NaN = NaN"
| "num_add PosInf NegInf = NaN"
| "num_add NegInf PosInf = NaN"
| "num_add PosInf _ = PosInf"
| "num_add _ PosInf = PosInf"
| "num_add NegInf _ = NegInf"
| "num_add _ NegInf = NegInf"

definition num_sub :: "jsnum \<Rightarrow> jsnum \<Rightarrow> jsnum" where
  "num_sub a b = num_add a (num_neg b)"

fun num_mul :: "jsnum \<Rightarrow> jsnum \<Rightarrow> jsnum" where
  "num_mul (Fin a) (Fin b) = Fin (a * b)"
| "num_mul NaN _ = NaN"
| "num_mul _ NaN = NaN"
| "num_mul (Fin a) PosInf = (if a = 0 then NaN else inf_of (a > 0))"
| "num_mul (Fin a) NegInf = (if a = 0 then NaN else inf_of (a < 0))"
| "num_mul PosInf (Fin b) = (if b = 0 then NaN else inf_of (b > 0))"
| "num_mul NegInf (Fin b) = (if b = 0 then NaN else inf_of (b < 0))"
| "num_mul PosInf PosInf = PosInf"
| "num_mul PosInf NegInf = NegInf"
| "num_mul NegInf PosInf = NegInf"
| "num_mul NegInf NegInf = PosInf"

fun num_div :: "jsnum \<Rightarrow> jsnum \<Rightarrow> jsnum" where
  "num_div (Fin a) (Fin b) =
     (if b = 0 then (if a = 0 then NaN else inf_of (a > 0)) else Fin (a / b))"
| "num_div NaN _ = NaN"
| "num_div _ NaN = NaN"
| "num_div (Fin a) PosInf = Fin 0"
| "num_div (Fin a) NegInf = Fin 0"
| "num_div PosInf (Fin b) = inf_of (b \<ge> 0)"
| "num_div NegInf (Fin b) = inf_of (b < 0)"
| "num_div PosInf PosInf = NaN"
| "num_div PosInf NegInf = NaN"
| "num_div NegInf PosInf = NaN"
| "num_div NegInf NegInf = NaN"

definition isNaN :: "jsnum \<Rightarrow> bool" where
  "isNaN n \<longleftrightarrow> n = NaN"

text \<open>\<open>v > 0\<close> on numbers; false for NaN.\<close>

fun num_pos :: "jsnum \<Rightarrow> bool" where
  "num_pos (Fin a) = (a > 0)"
| "num_pos PosInf = True"
| "num_pos NegInf = False"
| "num_pos NaN = False"

text \<open>The cells of a result row and the fields of a prediction are scalar values.\<close>

datatype jsval = Undefined | Null | Bool bool | Num jsnum | Str string

fun truthy :: "jsval \<Rightarrow> bool" where
  "truthy Undefined = False"
| "truthy Null = False"
| "truthy (Bool b) = b"
| "truthy (Num n) = (n \<noteq> NaN \<and> n \<noteq> Fin 0)"
| "truthy (Str s) = (s \<noteq> [])"

text \<open>
  \<open>parseFloat(v)\<close> converts \<open>v\<close> to a string and reads the longest prefix that is a
  decimal literal. For a number the result is the number itself; \<open>undefined\<close>, \<open>null\<close>
  and the booleans print as words and give NaN. The scanner of the runtime for string
  arguments is the parameter \<open>pfs\<close>.
\<close>

fun parseFloat :: "(string \<Rightarrow> jsnum) \<Rightarrow> jsval \<Rightarrow> jsnum" where
  "parseFloat pfs (Num n) = n"
| "parseFloat pfs (Str s) = pfs s"
| "parseFloat pfs _ = NaN"

text \<open>
  Reading \<open>row[i]\<close>: \<open>undefined\<close> outside the array, and for the index \<open>-1\<close> that
  \<open>findIndex\<close> returns when nothing is found. Writing \<open>row[i] = v\<close>: in range it
  replaces the element, beyond the end it extends the array (the gap reads as
  \<open>undefined\<close>), and at a negative index it sets a property that is no element, so the
  sequence of elements is unchanged.
\<close>

definition js_index :: "jsval list \<Rightarrow> int \<Rightarrow> jsval" where
  "js_index row i = (if 0 \<le> i \<and> nat i < length row then row ! nat i else Undefined)"

definition js_assign :: "jsval list \<Rightarrow> int \<Rightarrow> jsval \<Rightarrow> jsval list" where
  "js_assign row i v =
     (if i < 0 then row
      else if nat i < length row then row[nat i := v]
      else row @ replicate (nat i - length row) Undefined @ [v])"

text \<open>\<open>Array.prototype.findIndex\<close>: the callback receives the element and its index.\<close>

fun findIndexFrom :: "int \<Rightarrow> ('a \<Rightarrow> int \<Rightarrow> bool) \<Rightarrow> 'a list \<Rightarrow> int" where
  "findIndexFrom i p [] = - 1"
| "findIndexFrom i p (x # xs) = (if p x i then i else findIndexFrom (i + 1) p xs)"

definition findIndex :: "('a \<Rightarrow> int \<Rightarrow> bool) \<Rightarrow> 'a list \<Rightarrow> int" where
  "findIndex p xs = findIndexFrom 0 p xs"

record ResultSet =
  columns :: "string list"
  rows :: "jsval list list"

record prediction =
  pred_date :: jsval
  pred_value :: jsval

section \<open>Forecast merge (\<open>exports.chat\<close>)\<close>

text \<open>
  The block of \<open>exports.chat\<close> that merges the predictions of
  \<open>openaiService.generateForecast\<close> into the query result. \<open>existingDates\<close> is a
  \<open>Set\<close>; its \<open>has\<close> compares with SameValueZero, which on these scalar values is
  equality. The \<open>for\<close> loop over the predictions leaves \<open>existingDates\<close> as it is, so
  it appends the predictions that pass the test, in order.
\<close>

definition dateColIdxOf :: "ResultSet \<Rightarrow> int" where
  "dateColIdxOf results =
     findIndex (\<lambda>c i. str_includes (toLowerCase c) ''date'') (columns results)"

definition valueColIdxOf :: "(string \<Rightarrow> jsnum) \<Rightarrow> ResultSet \<Rightarrow> int" where
  "valueColIdxOf pfs results =
     findIndex
       (\<lambda>c i. i \<noteq> dateColIdxOf results \<and>
          (case rows results of [] \<Rightarrow> False
           | r0 # _ \<Rightarrow> \<not> isNaN (parseFloat pfs (js_index r0 i))))
       (columns results)"

definition validHistoricalRows :: "(string \<Rightarrow> jsnum) \<Rightarrow> ResultSet \<Rightarrow> jsval list list" where
  "validHistoricalRows pfs results =
     filter
       (\<lambda>row. truthy (js_index row (dateColIdxOf results)) \<and>
          js_index row (valueColIdxOf pfs results) \<noteq> Null \<and>
          js_index row (valueColIdxOf pfs results) \<noteq> Undefined)
       (rows results)"

definition forecastMerge :: "(string \<Rightarrow> jsnum) \<Rightarrow> ResultSet \<Rightarrow> prediction list \<Rightarrow> ResultSet" where
  "forecastMerge pfs results predictions =
     (let newColumns = columns results @ [''Forecast''];
          dateColIdx = dateColIdxOf results;
          valueColIdx = valueColIdxOf pfs results;
          existingDates = map (\<lambda>row. js_index row dateColIdx) (validHistoricalRows pfs results);
          newRows = map (\<lambda>row. row @ [Null]) (validHistoricalRows pfs results);
          newRows' =
            (if length newRows > 0
             then butlast newRows @
               [let lastRow = last newRows
                in js_assign lastRow (int (length newColumns) - 1)
                     (Num (parseFloat pfs (js_index lastRow valueColIdx)))]
             else newRows);
          predRows =
            map
              (\<lambda>pred.
                 js_assign
                   (js_assign (replicate (length newColumns) Null) dateColIdx (pred_date pred))
                   (int (length newColumns) - 1) (pred_value pred))
              (filter (\<lambda>pred. pred_date pred \<notin> set existingDates) predictions)
      in \<lparr>columns = newColumns, rows = newRows' @ predRows\<rparr>)"

section \<open>Linear-regression forecast (\<open>calculateForecast\<close>)\<close>

text \<open>Step 1: the loop over the column names; \<open>i\<close> is the index of the next column.\<close>

fun detectColumns ::
    "(string \<Rightarrow> jsnum) \<Rightarrow> jsval list list \<Rightarrow> string list \<Rightarrow> int \<Rightarrow> int \<times> int \<Rightarrow> int \<times> int" where
  "detectColumns pfs rws [] i idx = idx"
| "detectColumns pfs rws (c # cs) i (dateColIdx, metricColIdx) =
     (let colName = toLowerCase c
      in if str_includes colName ''date'' \<or> str_includes colName ''time'' \<or>
            str_includes colName ''day'' \<or> str_includes colName ''month''
         then detectColumns pfs rws cs (i + 1) (i, metricColIdx)
         else if (case rws of [] \<Rightarrow> False
                  | r0 # _ \<Rightarrow> \<not> isNaN (parseFloat pfs (js_index r0 i)))
         then detectColumns pfs rws cs (i + 1)
                (dateColIdx, if metricColIdx = - 1 then i else metricColIdx)
         else detectColumns pfs rws cs (i + 1) (dateColIdx, metricColIdx))"

text \<open>
  Step 2: a data point has the time value \<open>x\<close> and the metric \<open>y\<close> (its \<open>date\<close> field
  is never read). \<open>getTime\<close> stands for \<open>new Date(dateStr).getTime()\<close> of the runtime;
  it is NaN for an invalid date.
\<close>

record point =
  pt_x :: jsnum
  pt_y :: jsnum

definition toPoint ::
    "(string \<Rightarrow> jsnum) \<Rightarrow> (jsval \<Rightarrow> jsnum) \<Rightarrow> int \<Rightarrow> int \<Rightarrow> jsval list \<Rightarrow> point option" where
  "toPoint pfs getTime dateColIdx metricColIdx row =
     (let dateStr = js_index row dateColIdx;
          val = parseFloat pfs (js_index row metricColIdx)
      in if \<not> truthy dateStr \<or> isNaN val then None
         else Some \<lparr>pt_x = getTime dateStr, pt_y = val\<rparr>)"

text \<open>
  \<open>dataPoints.sort((a, b) => a.x - b.x)\<close>: a stable sort; a point moves behind another
  only when the comparator is positive. (With a NaN among the time values the
  comparator is no ordering and the runtime may order the points differently.)
\<close>

fun insertPoint :: "point \<Rightarrow> point list \<Rightarrow> point list" where
  "insertPoint p [] = [p]"
| "insertPoint p (q # qs) =
     (if num_pos (num_sub (pt_x p) (pt_x q)) then q # insertPoint p qs else p # q # qs)"

definition sortPoints :: "point list \<Rightarrow> point list" where
  "sortPoints ps = foldr insertPoint ps []"

text \<open>Step 3: the sums \<open>(sumX, sumY, sumXY, sumXX)\<close>, then slope and intercept.\<close>

definition regressionSums :: "point list \<Rightarrow> jsnum \<times> jsnum \<times> jsnum \<times> jsnum" where
  "regressionSums dataPoints =
     foldl
       (\<lambda>(sumX, sumY, sumXY, sumXX) p.
          (num_add sumX (pt_x p), num_add sumY (pt_y p),
           num_add sumXY (num_mul (pt_x p) (pt_y p)),
           num_add sumXX (num_mul (pt_x p) (pt_x p))))
       (Fin 0, Fin 0, Fin 0, Fin 0) dataPoints"

definition denominator :: "point list \<Rightarrow> jsnum" where
  "denominator dataPoints =
     (case regressionSums dataPoints of (sumX, sumY, sumXY, sumXX) \<Rightarrow>
        num_sub (num_mul (Fin (of_nat (length dataPoints))) sumXX) (num_mul sumX sumX))"

definition linearRegression :: "point list \<Rightarrow> jsnum \<times> jsnum" where
  "linearRegression dataPoints =
     (case regressionSums dataPoints of (sumX, sumY, sumXY, sumXX) \<Rightarrow>
        let n = Fin (of_nat (length dataPoints));
            slope = num_div (num_sub (num_mul n sumXY) (num_mul sumX sumY))
                      (denominator dataPoints);
            intercept = num_div (num_sub sumY (num_mul slope sumX)) n
        in (slope, intercept))"

definition avgInterval :: "point list \<Rightarrow> jsnum" where
  "avgInterval dataPoints =
     num_div (num_sub (pt_x (last dataPoints)) (pt_x (hd dataPoints)))
       (Fin (of_nat (length dataPoints) - 1))"

text \<open>
  Step 4: the loop \<open>for (let i = 1; i <= periods; i++)\<close>. \<open>isoDate t\<close> stands for
  \<open>new Date(t).toISOString().split('T')[0]\<close>; it is \<open>None\<close> when \<open>toISOString\<close> throws a
  RangeError (an invalid time value).
\<close>

datatype js_error = RangeError

fun futureRows ::
    "(jsnum \<Rightarrow> string option) \<Rightarrow> nat \<Rightarrow> int \<Rightarrow> jsnum \<Rightarrow> jsnum \<Rightarrow> jsnum \<Rightarrow> jsnum \<Rightarrow> nat
      \<Rightarrow> js_error + jsval list list" where
  "futureRows isoDate width dateColIdx slope intercept step currentX 0 = Inr []"
| "futureRows isoDate width dateColIdx slope intercept step currentX (Suc k) =
     (let currentX' = num_add currentX step;
          futureVal = num_add (num_mul slope currentX') intercept
      in case isoDate currentX' of
           None \<Rightarrow> Inl RangeError
         | Some dateStr \<Rightarrow>
             let newRow = js_assign (js_assign (replicate width Null) dateColIdx (Str dateStr))
                            (int width - 1) (Num futureVal)
             in (case futureRows isoDate width dateColIdx slope intercept step currentX' k of
                   Inl e \<Rightarrow> Inl e
                 | Inr rs \<Rightarrow> Inr (newRow # rs)))"

text \<open>The points the regression runs on: converted, filtered and sorted.\<close>

definition dataPointsOf ::
    "(string \<Rightarrow> jsnum) \<Rightarrow> (jsval \<Rightarrow> jsnum) \<Rightarrow> string list \<Rightarrow> jsval list list \<Rightarrow> point list" where
  "dataPointsOf pfs getTime cols rws =
     (case detectColumns pfs rws cols 0 (- 1, - 1) of (dateColIdx, metricColIdx) \<Rightarrow>
        sortPoints (List.map_filter (toPoint pfs getTime dateColIdx metricColIdx) rws))"

text \<open>
  \<open>calculateForecast(columns, rows, periods)\<close>: \<open>Inr None\<close> is the \<open>null\<close> it returns
  when it cannot forecast, \<open>Inl\<close> an exception.
\<close>

definition calculateForecast ::
    "(string \<Rightarrow> jsnum) \<Rightarrow> (jsval \<Rightarrow> jsnum) \<Rightarrow> (jsnum \<Rightarrow> string option) \<Rightarrow>
      string list \<Rightarrow> jsval list list \<Rightarrow> nat \<Rightarrow> js_error + ResultSet option" where
  "calculateForecast pfs getTime isoDate cols rws periods =
     (case detectColumns pfs rws cols 0 (- 1, - 1) of (dateColIdx, metricColIdx) \<Rightarrow>
        if dateColIdx = - 1 \<or> metricColIdx = - 1 \<or> length rws < 2 then Inr None
        else if length (List.map_filter (toPoint pfs getTime dateColIdx metricColIdx) rws) < 2
        then Inr None
        else
          let dataPoints = dataPointsOf pfs getTime cols rws;
              (slope, intercept) = linearRegression dataPoints;
              lastPoint = last dataPoints;
              newColumns = cols @ [''Forecast''];
              newRows = map (\<lambda>row. row @ [Null]) rws;
              newRows' = butlast newRows @
                [js_assign (last newRows) (int (length newColumns) - 1) (Num (pt_y lastPoint))]
          in (case futureRows isoDate (length newColumns) dateColIdx slope intercept
                     (avgInterval dataPoints) (pt_x lastPoint) periods of
                Inl e \<Rightarrow> Inl e
              | Inr future \<Rightarrow> Inr (Some \<lparr>columns = newColumns, rows = newRows' @ future\<rparr>)))"

section \<open>Notions used to state the properties\<close>

text \<open>
  A statement begins with a verb, ignoring leading white space and the case of the
  ASCII letters, when the verb stands after the leading white space and a white-space
  character follows it.
\<close>

definition upperAscii :: "char \<Rightarrow> char" where
  "upperAscii c =
     (let n = (of_char c :: nat) in if 97 \<le> n \<and> n \<le> 122 then char_of (n - 32) else c)"

definition isUpper :: "char \<Rightarrow> bool" where
  "isUpper c \<longleftrightarrow> 65 \<le> (of_char c :: nat) \<and> (of_char c :: nat) \<le> 90"

definition beginsWith :: "string \<Rightarrow> string \<Rightarrow> bool" where
  "beginsWith verb sql =
     (let r = dropWhile isWhiteSpace sql
      in length verb < length r \<and> map upperAscii (take (length verb) r) = verb \<and>
         isWhiteSpace (r ! length verb))"

text \<open>
  The invariant of the cache: its keys are distinct, as in every \<open>Map\<close>, and it holds
  at most \<open>maxSize\<close> entries, of which there is room for at least one.
\<close>

definition cache_inv :: "'v CacheService \<Rightarrow> bool" where
  "cache_inv this \<longleftrightarrow>
     distinct (map fst (cache this)) \<and> 0 < maxSize this \<and> Map_size (cache this) \<le> maxSize this"

text \<open>
  The object the constructor builds, with the public field \<open>maxSize\<close> set to \<open>M\<close>; the
  constructor itself sets 1000.
\<close>

definition newCacheWith :: "nat \<Rightarrow> 'v CacheService" where
  "newCacheWith M = newCacheService\<lparr>maxSize := M\<rparr>"

text \<open>A run of \<open>set\<close> calls, one for each \<open>(sql, value, ttl, now, now')\<close>.\<close>

definition stores :: "(string \<times> 'v \<times> int option \<times> int \<times> int) list \<Rightarrow> 'v cache_op list" where
  "stores xs = map (\<lambda>(sql, v, ttl, now, now'). Set sql v ttl now now') xs"

text \<open>The query \<open>a\<close> behind \<open>n\<close> blanks, stored with the value \<open>n\<close> at time 0.\<close>

definition padded :: "nat \<Rightarrow> string \<times> nat \<times> int option \<times> int \<times> int" where
  "padded n = (replicate n CHR '' '' @ ''a'', n, None, 0, 0)"

text \<open>
  The invariant of the pool: distinct keys, distinct pooled objects, and every pooled
  object was created earlier.
\<close>

definition pool_inv :: "TrinoService \<Rightarrow> bool" where
  "pool_inv this \<longleftrightarrow>
     distinct (map fst (clientPool this)) \<and>
     distinct (map (client_id \<circ> snd) (clientPool this)) \<and>
     list_all (\<lambda>e. client_id (snd e) < created this) (clientPool this)"

text \<open>Ten catalog and schema pairs, enough to fill the pool.\<close>

definition tenCatalogs :: "(string \<times> string) list" where
  "tenCatalogs = [(''c0'', ''s''), (''c1'', ''s''), (''c2'', ''s''), (''c3'', ''s''),
                  (''c4'', ''s''), (''c5'', ''s''), (''c6'', ''s''), (''c7'', ''s''),
                  (''c8'', ''s''), (''c9'', ''s'')]"

text \<open>Two query results: daily sales, and sales by brand with one day twice.\<close>

definition dailySales :: ResultSet where
  "dailySales = \<lparr>columns = [''date'', ''value''],
                 rows = [[Str ''2025-01-01'', Num (Fin 100)], [Str ''2025-01-02'', Num (Fin 110)]]\<rparr>"

definition brandSales :: ResultSet where
  "brandSales = \<lparr>columns = [''date'', ''brand'', ''value''],
                 rows = [[Str ''2025-01-01'', Str ''A'', Num (Fin 100)],
                         [Str ''2025-01-01'', Str ''B'', Num (Fin 110)]]\<rparr>"

text \<open>
  The rows of the points \<open>(t=0, y=10)\<close>, \<open>(t=1, y=20)\<close>, \<open>(t=2, y=30)\<close>, with the date
  strings \<open>d0\<close>, \<open>d1\<close>, \<open>d2\<close>.
\<close>

definition threePoints :: "string \<Rightarrow> string \<Rightarrow> string \<Rightarrow> jsval list list" where
  "threePoints d0 d1 d2 =
     [[Str d0, Num (Fin 10)], [Str d1, Num (Fin 20)], [Str d2, Num (Fin 30)]]"

text \<open>Two rows on one day: the time values have no variance.\<close>

definition sameDay :: "jsval list list" where
  "sameDay = [[Str ''2025-01-01'', Num (Fin 1)], [Str ''2025-01-01'', Num (Fin 2)]]"

text \<open>The time values of the first three milliseconds of 1970, NaN elsewhere.\<close>

definition epochTime :: "jsval \<Rightarrow> jsnum" where
  "epochTime v =
     (if v = Str ''1970-01-01T00:00:00.000Z'' then Fin 0
      else if v = Str ''1970-01-01T00:00:00.001Z'' then Fin 1
      else if v = Str ''1970-01-01T00:00:00.002Z'' then Fin 2
      else NaN)"

section \<open>The statement validator\<close>

lemma of_char_lt_256: "(of_char c :: nat) < 256"
  by (metis of_char_mod_256 mod_less_divisor zero_less_numeral)

lemma canonicalize_upper: "isUpper c \<Longrightarrow> canonicalize c = of_char c"
  by (simp add: canonicalize_def isUpper_def Let_def)

text \<open>Against an upper-case ASCII letter of a pattern only its two cases match.\<close>

lemma canon_eq_iff:
  assumes "isUpper c"
  shows "canonicalize x = canonicalize c \<longleftrightarrow> upperAscii x = c"
proof -
  have lt: "(of_char x :: nat) < 256" by (rule of_char_lt_256)
  have c: "canonicalize c = of_char c" using assms by (rule canonicalize_upper)
  show ?thesis
  proof (cases "97 \<le> (of_char x :: nat) \<and> (of_char x :: nat) \<le> 122")
    case True
    then have "canonicalize x = of_char x - 32" by (simp add: canonicalize_def Let_def)
    moreover have "upperAscii x = char_of (of_char x - 32 :: nat)"
      using True by (simp add: upperAscii_def Let_def)
    moreover have "(char_of (of_char x - 32 :: nat) = c) \<longleftrightarrow> (of_char x - 32 :: nat) = of_char c"
    proof -
      have "(of_char x - 32 :: nat) < 256" using lt by (rule less_imp_diff_less)
      then show ?thesis by (simp add: char_of_eq_iff take_bit_eq_mod)
    qed
    ultimately show ?thesis using c by simp
  next
    case False
    then have u: "upperAscii x = x" unfolding upperAscii_def Let_def by (rule if_not_P)
    have "canonicalize x = of_char c \<longleftrightarrow> x = c"
    proof
      assume h: "canonicalize x = of_char c"
      have "(of_char x :: nat) = of_char c"
        using h False assms lt
        by (auto simp: canonicalize_def Let_def isUpper_def split: if_splits)
      then show "x = c" by simp
    next
      assume "x = c" then show "canonicalize x = of_char c" using c by simp
    qed
    then show ?thesis using u c by simp
  qed
qed

lemma ws_not_upper: "isWhiteSpace x \<Longrightarrow> isUpper c \<Longrightarrow> canonicalize x \<noteq> canonicalize c"
  by (auto simp: isWhiteSpace_def isUpper_def canonicalize_def Let_def)

lemma rmatch_lits:
  "list_all isUpper v \<Longrightarrow>
   rmatch (map Lit v @ [Ws]) r \<longleftrightarrow>
     (length v < length r \<and> map upperAscii (take (length v) r) = v \<and> isWhiteSpace (r ! length v))"
proof (induction v arbitrary: r)
  case Nil
  then show ?case by (cases r) auto
next
  case (Cons c v)
  then show ?case by (cases r) (auto simp: canon_eq_iff)
qed

text \<open>
  Backtracking never helps \<open>\s*\<close> here: the atom after it is a letter, so it has to
  take all of the leading white space.
\<close>

lemma rmatch_star:
  assumes "isUpper c"
  shows "rmatch (WsStar # Lit c # p) s = rmatch (Lit c # p) (dropWhile isWhiteSpace s)"
proof (induction s)
  case Nil
  then show ?case by simp
next
  case (Cons x xs)
  then show ?case using ws_not_upper[OF _ assms] by auto
qed

lemma rmatch_verbPattern:
  assumes "v \<noteq> []" "list_all isUpper v"
  shows "rmatch (verbPattern v) sql = beginsWith v sql"
proof -
  obtain c v' where v: "v = c # v'" using assms(1) by (cases v) auto
  then have c: "isUpper c" using assms(2) by simp
  have "rmatch (verbPattern v) sql = rmatch (map Lit v @ [Ws]) (dropWhile isWhiteSpace sql)"
    unfolding verbPattern_def v using rmatch_star[OF c] by simp
  then show ?thesis using rmatch_lits[OF assms(2)] by (simp add: beginsWith_def Let_def)
qed

lemma verbs_upper:
  "\<forall>v \<in> set forbiddenVerbs \<union> set allowedVerbs. v \<noteq> [] \<and> list_all isUpper v"
  by (simp add: forbiddenVerbs_def allowedVerbs_def isUpper_def)

lemma list_ex_patterns:
  assumes "\<forall>v \<in> set vs. v \<noteq> [] \<and> list_all isUpper v"
  shows "list_ex (\<lambda>pattern. rmatch pattern sql) (map verbPattern vs) =
         list_ex (\<lambda>v. beginsWith v sql) vs"
  using assms by (induction vs) (auto simp: rmatch_verbPattern)

lemma validateReadOnly_char:
  "validateReadOnly sql =
     (if list_ex (\<lambda>v. beginsWith v sql) forbiddenVerbs then Inl writeForbidden
      else if list_ex (\<lambda>v. beginsWith v sql) allowedVerbs then Inr True
      else Inl notPermitted)"
  using verbs_upper
  by (simp add: validateReadOnly_def forbiddenPatterns_def allowedPatterns_def list_ex_patterns)

lemma beginsWith_intro:
  assumes "list_all isWhiteSpace ws" "map upperAscii x = v" "isWhiteSpace w"
    "list_all isUpper v" "v \<noteq> []"
  shows "beginsWith v (ws @ x @ w # rest)"
proof -
  have lx: "length x = length v" using assms(2) by auto
  have "x \<noteq> []" using assms(2,5) by auto
  then obtain a x' where x: "x = a # x'" by (cases x) auto
  have "upperAscii a = hd v" using assms(2) x by auto
  moreover have "isUpper (hd v)" using assms(4,5) by (cases v) auto
  ultimately have "\<not> isWhiteSpace a"
    by (auto simp: isWhiteSpace_def isUpper_def upperAscii_def Let_def char_of_def
        bit_Suc_0_iff split: if_splits)
  then have "dropWhile isWhiteSpace (ws @ x @ w # rest) = x @ w # rest"
    using assms(1) x by (simp add: list_all_iff)
  then show ?thesis using lx assms(2,3) by (simp add: beginsWith_def Let_def nth_append)
qed

lemma upper_not_ws: "isUpper c \<Longrightarrow> \<not> isWhiteSpace c"
  by (auto simp: isUpper_def isWhiteSpace_def)

lemma upperAscii_ws: "isWhiteSpace c \<Longrightarrow> upperAscii c = c"
  by (auto simp: upperAscii_def isWhiteSpace_def Let_def)

lemma beginsWith_le:
  assumes "list_all isUpper v'" "beginsWith v sql" "beginsWith v' sql"
  shows "length v' \<le> length v"
proof (rule ccontr)
  assume "\<not> length v' \<le> length v"
  then have lt: "length v < length v'" by simp
  define r where "r = dropWhile isWhiteSpace sql"
  have w: "isWhiteSpace (r ! length v)" and lv': "length v' < length r"
    and v': "map upperAscii (take (length v') r) = v'"
    using assms(2,3) by (simp_all add: beginsWith_def Let_def r_def)
  have "v' ! length v = upperAscii (r ! length v)"
    using lt lv' arg_cong[OF v', of "\<lambda>l. l ! length v"] by simp
  then have "v' ! length v = r ! length v" using w by (simp add: upperAscii_ws)
  moreover have "isUpper (v' ! length v)" using assms(1) lt by (simp add: list_all_length)
  ultimately show False using w upper_not_ws by auto
qed

lemma beginsWith_unique:
  assumes "list_all isUpper v" "list_all isUpper v'" "beginsWith v sql" "beginsWith v' sql"
  shows "v = v'"
proof -
  have "length v = length v'"
    using beginsWith_le[OF assms(2) assms(3) assms(4)] beginsWith_le[OF assms(1) assms(4) assms(3)]
    by simp
  then show ?thesis using assms(3,4) by (auto simp: beginsWith_def Let_def)
qed

lemma verbs_disjoint: "set forbiddenVerbs \<inter> set allowedVerbs = {}"
  by (simp add: forbiddenVerbs_def allowedVerbs_def)

text \<open>
  Claim C1, as the code has it. A statement that begins, after optional leading white
  space and ignoring case, with one of the verbs SELECT, WITH, SHOW, DESCRIBE or EXPLAIN
  followed by a white-space character is accepted. A statement that begins in the same
  way with INSERT, UPDATE, DELETE, DROP, CREATE, ALTER, TRUNCATE, GRANT, REVOKE or MERGE
  followed by a white-space character is rejected with the write-operation message,
  whatever follows. The forbidden verbs are tested first, and a statement that begins
  with neither kind of verb is rejected with the statement-type message.
\<close>

theorem validateReadOnly_leading_verb:
  "(list_all isWhiteSpace ws \<and> isWhiteSpace w \<and> map upperAscii x \<in> set allowedVerbs \<longrightarrow>
      validateReadOnly (ws @ x @ w # rest) = Inr True) \<and>
   (list_all isWhiteSpace ws \<and> isWhiteSpace w \<and> map upperAscii x \<in> set forbiddenVerbs \<longrightarrow>
      validateReadOnly (ws @ x @ w # rest) = Inl writeForbidden) \<and>
   validateReadOnly sql =
     (if list_ex (\<lambda>v. beginsWith v sql) forbiddenVerbs then Inl writeForbidden
      else if list_ex (\<lambda>v. beginsWith v sql) allowedVerbs then Inr True
      else Inl notPermitted)"
proof (intro conjI impI)
  assume a: "list_all isWhiteSpace ws \<and> isWhiteSpace w \<and> map upperAscii x \<in> set allowedVerbs"
  let ?v = "map upperAscii x" and ?sql = "ws @ x @ w # rest"
  have up: "?v \<noteq> [] \<and> list_all isUpper ?v" using a verbs_upper by blast
  have b: "beginsWith ?v ?sql" using a up by (intro beginsWith_intro) simp_all
  have "\<not> beginsWith v' ?sql" if "v' \<in> set forbiddenVerbs" for v'
  proof
    assume "beginsWith v' ?sql"
    moreover have "list_all isUpper v'" using that verbs_upper by blast
    ultimately have "?v = v'" using b up beginsWith_unique by blast
    then show False using a that verbs_disjoint by auto
  qed
  then have "\<not> list_ex (\<lambda>v. beginsWith v ?sql) forbiddenVerbs" by (auto simp: list_ex_iff)
  moreover have "list_ex (\<lambda>v. beginsWith v ?sql) allowedVerbs" using a b by (auto simp: list_ex_iff)
  ultimately show "validateReadOnly ?sql = Inr True" by (simp add: validateReadOnly_char)
next
  assume a: "list_all isWhiteSpace ws \<and> isWhiteSpace w \<and> map upperAscii x \<in> set forbiddenVerbs"
  let ?v = "map upperAscii x" and ?sql = "ws @ x @ w # rest"
  have up: "?v \<noteq> [] \<and> list_all isUpper ?v" using a verbs_upper by blast
  have b: "beginsWith ?v ?sql" using a up by (intro beginsWith_intro) simp_all
  then have "list_ex (\<lambda>v. beginsWith v ?sql) forbiddenVerbs" using a by (auto simp: list_ex_iff)
  then show "validateReadOnly ?sql = Inl writeForbidden" by (simp add: validateReadOnly_char)
next
  show "validateReadOnly sql =
     (if list_ex (\<lambda>v. beginsWith v sql) forbiddenVerbs then Inl writeForbidden
      else if list_ex (\<lambda>v. beginsWith v sql) allowedVerbs then Inr True
      else Inl notPermitted)" by (rule validateReadOnly_char)
qed

text \<open>Facts that evaluate the string functions on literals.\<close>

lemmas str_eval = isWhiteSpace_def upperAscii_def char_of_def bit_Suc_0_iff
  forbiddenVerbs_def allowedVerbs_def beginsWith_def

text \<open>
  The three cases at \<open>"  select 1"\<close>, \<open>"Drop TABLE x; SELECT 1"\<close> and \<open>"CALL p()"\<close>.
\<close>

theorem validateReadOnly_leading_verb_witness:
  "validateReadOnly (''  '' @ ''select'' @ CHR '' '' # ''1'') = Inr True \<and>
   validateReadOnly ([] @ ''Drop'' @ CHR '' '' # ''TABLE x; SELECT 1'') = Inl writeForbidden \<and>
   validateReadOnly ''CALL p()'' = Inl notPermitted"
proof -
  have 1: "validateReadOnly (''  '' @ ''select'' @ CHR '' '' # ''1'') = Inr True"
    using validateReadOnly_leading_verb [of "''  ''" "CHR '' ''" "''select''" "''1''" "[]"]
    by (simp add: str_eval)
  have 2: "validateReadOnly ([] @ ''Drop'' @ CHR '' '' # ''TABLE x; SELECT 1'') = Inl writeForbidden"
    using validateReadOnly_leading_verb [of "[]" "CHR '' ''" "''Drop''" "''TABLE x; SELECT 1''" "[]"]
    by (simp add: str_eval)
  have 3: "validateReadOnly ''CALL p()'' = Inl notPermitted"
    using validateReadOnly_leading_verb [of "[]" "CHR '' ''" "[]" "[]" "''CALL p()''"]
    by (simp add: str_eval)
  show ?thesis using 1 2 3 by blast
qed

text \<open>
  Claim C1 as stated fails where no white space follows the verb: \<open>SELECT*FROM t\<close>
  begins with SELECT and is rejected, and a bare \<open>DROP\<close> is rejected with the
  statement-type message, not the write-operation message.
\<close>

theorem validateReadOnly_bare_verb_counterexample:
  "validateReadOnly ''SELECT*FROM t'' = Inl notPermitted \<and>
   validateReadOnly ''DROP'' = Inl notPermitted"
  by (simp add: validateReadOnly_char str_eval)

section \<open>The query fingerprint\<close>

text \<open>Facts that evaluate MD5 on a literal.\<close>

lemma replicate_numeral: "replicate (numeral n) x = x # replicate (pred_numeral n) x"
  by (simp add: numeral_eq_Suc)

lemmas md5_eval = md5hex_def utf8_def md5_def md5_pad_def le_bytes4_def md5_block_def
  round1_def round2_def round3_def round4_def md5_F_def md5_G_def md5_H_def md5_I_def
  rotl32_def hexByte_def hexDigit_def replicate_numeral

text \<open>The digests agree with the reference implementation of RFC 1321.\<close>

lemma md5hex_select_1: "md5hex ''select 1'' = ''95adb6e77a0884d9e50232cb8c5c969d''"
  by (simp add: md5_eval)

lemma md5hex_select_2: "md5hex ''select 2'' = ''8222fbf4485048374b8751d04bb6c90a''"
  by (simp add: md5_eval)

lemma md5hex_select__1: "md5hex ''select  1'' = ''d1f1e7d3280be2cd6a38290d440198fe''"
  by (simp add: md5_eval)

lemma isWhiteSpace_lowerChar: "isWhiteSpace (lowerChar c) = isWhiteSpace c"
proof -
  have "(of_char c :: nat) < 256" by (rule of_char_lt_256)
  then show ?thesis
    by (auto simp: isWhiteSpace_def lowerChar_def Let_def)
qed

lemma trim_toLowerCase: "trim (toLowerCase s) = toLowerCase (trim s)"
proof -
  have c: "isWhiteSpace \<circ> lowerChar = isWhiteSpace"
    by (rule ext) (simp add: isWhiteSpace_lowerChar)
  show ?thesis
    by (simp add: trim_def toLowerCase_def dropWhile_map rev_map c)
qed

lemma dropWhile_all: "list_all P xs \<Longrightarrow> dropWhile P (xs @ ys) = dropWhile P ys"
  by (simp add: list_all_iff)

lemma trim_padding:
  assumes "list_all isWhiteSpace ws1" "list_all isWhiteSpace ws2"
  shows "trim (ws1 @ s @ ws2) = trim s"
proof -
  have 1: "dropWhile isWhiteSpace (ws1 @ s @ ws2) = dropWhile isWhiteSpace (s @ ws2)"
    using assms(1) by (rule dropWhile_all)
  have r: "list_all isWhiteSpace (rev ws2)" using assms(2) by (simp add: list_all_iff)
  show ?thesis
  proof (cases "list_all isWhiteSpace s")
    case True
    have a: "dropWhile isWhiteSpace (s @ ws2) = []"
      unfolding dropWhile_eq_Nil_conv using True assms(2) by (auto simp: list_all_iff)
    have b: "dropWhile isWhiteSpace s = []"
      unfolding dropWhile_eq_Nil_conv using True by (auto simp: list_all_iff)
    show ?thesis unfolding trim_def 1 a b by simp
  next
    case False
    then obtain x where "x \<in> set s" "\<not> isWhiteSpace x" by (auto simp: list_all_iff)
    then have "dropWhile isWhiteSpace (s @ ws2) = dropWhile isWhiteSpace s @ ws2"
      by (rule dropWhile_append1)
    then have "trim (ws1 @ s @ ws2)
        = rev (dropWhile isWhiteSpace (rev ws2 @ rev (dropWhile isWhiteSpace s)))"
      using 1 by (simp add: trim_def)
    also have "\<dots> = rev (dropWhile isWhiteSpace (rev (dropWhile isWhiteSpace s)))"
      using dropWhile_all[OF r] by simp
    finally show ?thesis by (simp add: trim_def)
  qed
qed

lemma generateKey_padding_case:
  assumes "list_all isWhiteSpace ws1" "list_all isWhiteSpace ws2" "toLowerCase s' = toLowerCase s"
  shows "generateKey (ws1 @ s' @ ws2) = generateKey s"
proof -
  have "toLowerCase (trim (ws1 @ s' @ ws2)) = trim (toLowerCase s')"
    using trim_padding[OF assms(1,2)] by (simp add: trim_toLowerCase)
  also have "\<dots> = toLowerCase (trim s)" using assms(3) by (simp add: trim_toLowerCase)
  finally show ?thesis by (simp add: generateKey_def)
qed

lemmas key_eval = generateKey_def trim_def toLowerCase_def lowerChar_def isWhiteSpace_def
  char_of_def bit_Suc_0_iff

lemma generateKey_SELECT_1: "generateKey ''SELECT 1'' = ''95adb6e77a0884d9e50232cb8c5c969d''"
proof -
  have "toLowerCase (trim ''SELECT 1'') = ''select 1''"
    by (simp add: trim_def toLowerCase_def lowerChar_def isWhiteSpace_def char_of_def bit_Suc_0_iff)
  then show ?thesis by (simp add: generateKey_def md5hex_select_1)
qed

lemma generateKey_SELECT_2: "generateKey ''SELECT 2'' = ''8222fbf4485048374b8751d04bb6c90a''"
proof -
  have "toLowerCase (trim ''SELECT 2'') = ''select 2''"
    by (simp add: trim_def toLowerCase_def lowerChar_def isWhiteSpace_def char_of_def bit_Suc_0_iff)
  then show ?thesis by (simp add: generateKey_def md5hex_select_2)
qed

lemma generateKey_SELECT__1: "generateKey ''SELECT  1'' = ''d1f1e7d3280be2cd6a38290d440198fe''"
proof -
  have "toLowerCase (trim ''SELECT  1'') = ''select  1''"
    by (simp add: trim_def toLowerCase_def lowerChar_def isWhiteSpace_def char_of_def bit_Suc_0_iff)
  then show ?thesis by (simp add: generateKey_def md5hex_select__1)
qed

text \<open>
  Claim C6, as the code has it. The fingerprint is the MD5 digest of the trimmed,
  lower-cased statement. Two statements that differ only in leading or trailing white
  space and in letter case have the same fingerprint; in particular
  \<open>fingerprint("SELECT 1")\<close> equals \<open>fingerprint("  select 1  ")\<close>, and
  \<open>fingerprint("SELECT 1")\<close> differs from \<open>fingerprint("SELECT 2")\<close>.
\<close>

theorem generateKey_normalized:
  "(list_all isWhiteSpace ws1 \<and> list_all isWhiteSpace ws2 \<and> toLowerCase s' = toLowerCase s \<longrightarrow>
      generateKey (ws1 @ s' @ ws2) = generateKey s) \<and>
   generateKey sql = md5hex (toLowerCase (trim sql)) \<and>
   generateKey ''SELECT 1'' = generateKey ''  select 1  '' \<and>
   generateKey ''SELECT 1'' \<noteq> generateKey ''SELECT 2''"
proof (intro conjI impI)
  assume "list_all isWhiteSpace ws1 \<and> list_all isWhiteSpace ws2 \<and> toLowerCase s' = toLowerCase s"
  then show "generateKey (ws1 @ s' @ ws2) = generateKey s"
    using generateKey_padding_case by blast
next
  show "generateKey sql = md5hex (toLowerCase (trim sql))" by (simp add: generateKey_def)
next
  have "generateKey (''  '' @ ''select 1'' @ ''  '') = generateKey ''SELECT 1''"
    by (rule generateKey_padding_case)
      (simp_all add: isWhiteSpace_def toLowerCase_def lowerChar_def char_of_def bit_Suc_0_iff)
  then show "generateKey ''SELECT 1'' = generateKey ''  select 1  ''" by simp
next
  show "generateKey ''SELECT 1'' \<noteq> generateKey ''SELECT 2''"
    by (simp add: generateKey_SELECT_1 generateKey_SELECT_2)
qed

text \<open>A statement padded with a line feed and blanks, in mixed case.\<close>

theorem generateKey_normalized_witness:
  "generateKey (''\<newline> '' @ ''Select 1'' @ ''  '') = ''95adb6e77a0884d9e50232cb8c5c969d''"
proof -
  have "generateKey (''\<newline> '' @ ''Select 1'' @ ''  '') = generateKey ''SELECT 1''"
    using generateKey_normalized [of "''\<newline> ''" "''  ''" "''Select 1''" "''SELECT 1''" "[]"]
    by (simp add: isWhiteSpace_def toLowerCase_def lowerChar_def char_of_def bit_Suc_0_iff)
  then show ?thesis by (simp only: generateKey_SELECT_1)
qed

text \<open>
  Claim C6 as stated fails for white space inside the statement: \<open>trim\<close> removes it
  at the two ends only, and \<open>"SELECT 1"\<close> and \<open>"SELECT  1"\<close>, which differ only in
  white space, have different fingerprints.
\<close>

theorem generateKey_inner_space_counterexample:
  "generateKey ''SELECT 1'' \<noteq> generateKey ''SELECT  1''"
  by (simp add: generateKey_SELECT_1 generateKey_SELECT__1)

text \<open>
  Nor can statements that differ in another token always have different fingerprints:
  there are finitely many digests and infinitely many normalized statements, so two of
  them collide.
\<close>

lemma finite_range_generateKey: "finite (range generateKey)"
proof -
  have "range generateKey \<subseteq> range digestHex" by (auto simp: generateKey_def md5hex_def)
  moreover have "finite (range digestHex)" by simp
  ultimately show ?thesis by (rule finite_subset)
qed

lemma normal_as: "toLowerCase (trim (replicate n CHR ''a'')) = replicate n CHR ''a''"
proof -
  have "\<not> isWhiteSpace CHR ''a''" by (simp add: isWhiteSpace_def)
  then have "trim (replicate n CHR ''a'') = replicate n CHR ''a''"
    by (cases n) (simp_all add: trim_def replicate_append_same)
  moreover have "lowerChar CHR ''a'' = CHR ''a''" by (simp add: lowerChar_def)
  ultimately show ?thesis by (simp add: toLowerCase_def)
qed

lemma generateKey_collision:
  "\<exists>s t. toLowerCase (trim s) \<noteq> toLowerCase (trim t) \<and> generateKey s = generateKey t"
proof -
  let ?f = "\<lambda>n. replicate n CHR ''a''"
  have "\<not> inj (generateKey \<circ> ?f)"
  proof
    assume "inj (generateKey \<circ> ?f)"
    moreover have "range (generateKey \<circ> ?f) \<subseteq> range generateKey" by auto
    then have "finite (range (generateKey \<circ> ?f))"
      using finite_range_generateKey by (rule finite_subset)
    ultimately have "finite (UNIV :: nat set)" by (rule finite_imageD[rotated])
    then show False by simp
  qed
  then obtain m n where mn: "m \<noteq> n" "generateKey (?f m) = generateKey (?f n)"
    by (auto simp: inj_on_def)
  have "?f m \<noteq> ?f n" using mn(1) by (metis length_replicate)
  then show ?thesis using mn(2) normal_as by metis
qed

section \<open>The query cache\<close>

lemma Map_get_set: "Map_get (Map_set m k v) k = Some v"
  by (induction m) (auto simp: Map_get_def)

lemma Map_get_set_other: "k' \<noteq> k \<Longrightarrow> Map_get (Map_set m k v) k' = Map_get m k'"
  by (induction m) (auto simp: Map_get_def)

lemma Map_has_delete: "\<not> Map_has (Map_delete m k) k"
  by (induction m) (auto simp: Map_has_def Map_delete_def)

lemma keys_Map_set:
  "map fst (Map_set m k v) = (if k \<in> set (map fst m) then map fst m else map fst m @ [k])"
  by (induction m) force+

lemma length_Map_set_le: "length (Map_set m k v) \<le> Suc (length m)"
  by (induction m) auto

lemma length_Map_delete_le: "length (Map_delete m k) \<le> length m"
  by (simp add: Map_delete_def)

lemma distinct_Map_set: "distinct (map fst m) \<Longrightarrow> distinct (map fst (Map_set m k v))"
  by (simp add: keys_Map_set)

lemma distinct_Map_delete: "distinct (map fst m) \<Longrightarrow> distinct (map fst (Map_delete m k))"
  by (simp add: Map_delete_def distinct_map_filter)

lemma Map_delete_first:
  assumes "distinct (map fst (e # m))"
  shows "Map_delete (e # m) (fst e) = m"
proof -
  have "fst e \<notin> fst ` set m" using assms by simp
  then have "\<forall>x \<in> set m. fst x \<noteq> fst e" by (metis imageI)
  then show ?thesis by (simp add: Map_delete_def)
qed

lemma length_Map_delete_first: "length (Map_delete (e # m) (fst e)) \<le> length m"
  by (simp add: Map_delete_def)

lemma cache_inv_new: "cache_inv newCacheService"
  by (simp add: cache_inv_def newCacheService_def Map_size_def)

lemma cache_set_evict:
  assumes "cache_inv this" "Map_size (cache this) = maxSize this"
  shows "cache (cache_set this sql v ttl now now') =
         Map_set (tl (cache this)) (generateKey sql)
           \<lparr>item_value = v, expiresAt = now + (case ttl of None \<Rightarrow> defaultTTL this | Some t \<Rightarrow> t),
            createdAt = now'\<rparr>"
proof -
  obtain e m where c: "cache this = e # m"
    using assms by (cases "cache this") (auto simp: cache_inv_def Map_size_def)
  have "Map_delete (e # m) (fst e) = m"
    using assms(1) c by (intro Map_delete_first) (simp add: cache_inv_def)
  then show ?thesis
    using assms(2) c by (simp add: cache_set_def Let_def Map_firstKey_def)
qed

lemma cache_set_no_evict:
  assumes "Map_size (cache this) < maxSize this"
  shows "cache (cache_set this sql v ttl now now') =
         Map_set (cache this) (generateKey sql)
           \<lparr>item_value = v, expiresAt = now + (case ttl of None \<Rightarrow> defaultTTL this | Some t \<Rightarrow> t),
            createdAt = now'\<rparr>"
  using assms by (simp add: cache_set_def Let_def)

lemma maxSize_cache_set [simp]: "maxSize (cache_set this sql v ttl now now') = maxSize this"
  by (simp add: cache_set_def Let_def)

lemma cache_inv_set:
  assumes "cache_inv this"
  shows "cache_inv (cache_set this sql v ttl now now')"
proof (cases "Map_size (cache this) = maxSize this")
  case True
  obtain e m where c: "cache this = e # m"
    using assms True by (cases "cache this") (auto simp: cache_inv_def Map_size_def)
  have d: "distinct (map fst m)" and l: "Suc (length m) = maxSize this"
    using assms True c by (auto simp: cache_inv_def Map_size_def)
  let ?it = "\<lparr>item_value = v,
      expiresAt = now + (case ttl of None \<Rightarrow> defaultTTL this | Some t \<Rightarrow> t), createdAt = now'\<rparr>"
  have "length (Map_set m (generateKey sql) ?it) \<le> Suc (length m)"
    by (rule length_Map_set_le)
  then have "length (Map_set m (generateKey sql) ?it) \<le> maxSize this" using l by simp
  then show ?thesis
    unfolding cache_inv_def cache_set_evict[OF assms True] c
    using d assms by (simp add: distinct_Map_set Map_size_def cache_inv_def)
next
  case False
  then have lt: "Map_size (cache this) < maxSize this" using assms by (simp add: cache_inv_def)
  let ?it = "\<lparr>item_value = v,
      expiresAt = now + (case ttl of None \<Rightarrow> defaultTTL this | Some t \<Rightarrow> t), createdAt = now'\<rparr>"
  have "length (Map_set (cache this) (generateKey sql) ?it) \<le> Suc (length (cache this))"
    by (rule length_Map_set_le)
  then have "length (Map_set (cache this) (generateKey sql) ?it) \<le> maxSize this"
    using lt by (simp add: Map_size_def)
  then show ?thesis
    unfolding cache_inv_def cache_set_no_evict[OF lt]
    using assms by (simp add: distinct_Map_set Map_size_def cache_inv_def)
qed

lemma cache_inv_get: "cache_inv this \<Longrightarrow> cache_inv (snd (cache_get this sql now))"
  using length_Map_delete_le[of "cache this" "generateKey sql"]
  by (auto simp: cache_inv_def cache_get_def Let_def Map_size_def distinct_Map_delete
      split: option.splits)

lemma cache_inv_has: "cache_inv this \<Longrightarrow> cache_inv (snd (cache_has this sql now))"
  using length_Map_delete_le[of "cache this" "generateKey sql"]
  by (auto simp: cache_inv_def cache_has_def Let_def Map_size_def distinct_Map_delete
      split: option.splits)

lemma cache_inv_clear: "cache_inv this \<Longrightarrow> cache_inv (cache_clear this)"
  by (simp add: cache_inv_def cache_clear_def Map_size_def)

lemma cache_inv_step: "cache_inv this \<Longrightarrow> cache_inv (cache_step this call)"
  by (cases call) (simp_all add: cache_inv_set cache_inv_get cache_inv_has cache_inv_clear)

lemma cache_inv_run: "cache_inv this \<Longrightarrow> cache_inv (cache_run this calls)"
  unfolding cache_run_def by (induction calls arbitrary: this) (simp_all add: cache_inv_step)

lemma cache_run_Nil [simp]: "cache_run this [] = this"
  by (simp add: cache_run_def)

lemma cache_run_Cons [simp]: "cache_run this (c # cs) = cache_run (cache_step this c) cs"
  by (simp add: cache_run_def)

lemma cache_run_append [simp]: "cache_run this (cs @ ds) = cache_run (cache_run this cs) ds"
  by (simp add: cache_run_def)

lemma maxSize_step [simp]: "maxSize (cache_step this c) = maxSize this"
  by (cases c) (auto simp: cache_get_def cache_has_def cache_clear_def Let_def split: option.splits)

lemma maxSize_run [simp]: "maxSize (cache_run this cs) = maxSize this"
  by (induction cs arbitrary: this) simp_all

lemma stores_below_capacity:
  assumes "cache_inv this"
    and "distinct (map fst (cache this) @ map (generateKey \<circ> fst) xs)"
    and "length (cache this) + length xs \<le> maxSize this"
  shows "map fst (cache (cache_run this (stores xs))) =
         map fst (cache this) @ map (generateKey \<circ> fst) xs"
  using assms
proof (induction xs arbitrary: this)
  case Nil
  then show ?case by (simp add: stores_def)
next
  case (Cons x xs)
  obtain sql v ttl now now' where x: "x = (sql, v, ttl, now, now')" by (cases x) auto
  let ?this' = "cache_set this sql v ttl now now'"
  have lt: "Map_size (cache this) < maxSize this" using Cons.prems(3) by (simp add: Map_size_def)
  have new: "generateKey sql \<notin> set (map fst (cache this))" using Cons.prems(2) x by auto
  have k: "map fst (cache ?this') = map fst (cache this) @ [generateKey sql]"
    using new unfolding cache_set_no_evict[OF lt] keys_Map_set by simp
  have "map fst (cache (cache_run ?this' (stores xs))) =
        map fst (cache ?this') @ map (generateKey \<circ> fst) xs"
  proof (rule Cons.IH)
    show "cache_inv ?this'" using Cons.prems(1) by (rule cache_inv_set)
    show "distinct (map fst (cache ?this') @ map (generateKey \<circ> fst) xs)"
      using Cons.prems(2) x k by (auto simp: comp_def)
    have "length (cache ?this') = Suc (length (cache this))"
      using arg_cong[OF k, of length] by simp
    then show "length (cache ?this') + length xs \<le> maxSize ?this'"
      using Cons.prems(3) by simp
  qed
  then show ?case using k x by (simp add: stores_def)
qed

lemma stores_one_over_capacity:
  fixes xs :: "(string \<times> 'v \<times> int option \<times> int \<times> int) list"
  assumes inv: "cache_inv this" and empty: "cache this = []"
    and d: "distinct (map (generateKey \<circ> fst) xs)"
    and l: "length xs = maxSize this + 1"
  shows "map fst (cache (cache_run this (stores xs))) = map (generateKey \<circ> fst) (tl xs)"
proof -
  define front where "front = butlast xs"
  define x where "x = last xs"
  have xs: "xs = front @ [x]" using l by (cases xs rule: rev_cases) (auto simp: front_def x_def)
  have lf: "length front = maxSize this" using l xs by simp
  have ne: "front \<noteq> []" using lf inv by (auto simp: cache_inv_def)
  obtain sql v ttl now now' where x: "x = (sql, v, ttl, now, now')" by (cases x) auto
  let ?mid = "cache_run this (stores front)"
  have km: "map fst (cache ?mid) = map (generateKey \<circ> fst) front"
    using stores_below_capacity[OF inv, of front] d xs lf empty by simp
  have im: "cache_inv ?mid" using inv by (rule cache_inv_run)
  have full: "Map_size (cache ?mid) = maxSize ?mid"
    using arg_cong[OF km, of length] lf by (simp add: Map_size_def)
  have new: "generateKey sql \<notin> set (map (generateKey \<circ> fst) front)" using d xs x by auto
  have "cache_run this (stores xs) = cache_set ?mid sql v ttl now now'"
    using xs x by (simp add: stores_def)
  then have "map fst (cache (cache_run this (stores xs)))
      = map fst (Map_set (tl (cache ?mid)) (generateKey sql)
          \<lparr>item_value = v,
           expiresAt = now + (case ttl of None \<Rightarrow> defaultTTL ?mid | Some t \<Rightarrow> t),
           createdAt = now'\<rparr>)"
    using cache_set_evict[OF im full] by simp
  also have "\<dots> = map fst (tl (cache ?mid)) @ [generateKey sql]"
  proof -
    have "set (map fst (tl (cache ?mid))) \<subseteq> set (map fst (cache ?mid))"
      by (cases "cache ?mid") auto
    then have "generateKey sql \<notin> set (map fst (tl (cache ?mid)))" using new km by auto
    then show ?thesis unfolding keys_Map_set by simp
  qed
  also have "\<dots> = tl (map (generateKey \<circ> fst) front) @ [generateKey sql]"
    using km by (simp add: map_tl)
  also have "\<dots> = map (generateKey \<circ> fst) (tl xs)"
    using ne xs x by (cases front) (auto simp: map_tl)
  finally show ?thesis .
qed

lemma newCacheWith_1000: "newCacheWith 1000 = newCacheService"
  by (simp add: newCacheWith_def newCacheService_def)

text \<open>
  Claim C3, as the code has it. A cache that starts empty with a maximum of \<open>M > 0\<close>
  entries never holds more than \<open>M\<close> entries, whatever calls are made. When \<open>set\<close>
  is called with \<open>M\<close> resident entries, exactly the oldest-inserted entry is evicted
  and then the new entry is stored. In particular, storing \<open>M + 1\<close> queries with
  pairwise distinct fingerprints into the empty cache leaves exactly \<open>M\<close> resident
  entries, the keys of the last \<open>M\<close> queries, and the first-inserted key is absent.
\<close>

theorem cache_capacity:
  fixes calls :: "'v cache_op list" and xs :: "(string \<times> 'v \<times> int option \<times> int \<times> int) list"
  assumes "0 < M"
  shows
  "Map_size (cache (cache_run (newCacheWith M) calls)) \<le> M \<and>
   (Map_size (cache (cache_run (newCacheWith M) calls)) = M \<longrightarrow>
      cache (cache_set (cache_run (newCacheWith M) calls) sql v ttl now now') =
        Map_set (tl (cache (cache_run (newCacheWith M) calls))) (generateKey sql)
          \<lparr>item_value = v,
           expiresAt = now + (case ttl of None \<Rightarrow> defaultTTL (cache_run (newCacheWith M) calls)
                              | Some t \<Rightarrow> t),
           createdAt = now'\<rparr>) \<and>
   (distinct (map (generateKey \<circ> fst) xs) \<and> length xs = M + 1 \<longrightarrow>
      Map_size (cache (cache_run (newCacheWith M) (stores xs))) = M \<and>
      \<not> Map_has (cache (cache_run (newCacheWith M) (stores xs))) (generateKey (fst (hd xs))) \<and>
      map fst (cache (cache_run (newCacheWith M) (stores xs))) = map (generateKey \<circ> fst) (tl xs))"
proof (intro conjI impI)
  let ?new = "newCacheWith M :: 'v CacheService"
  have inv0: "cache_inv ?new" and e0: "cache ?new = []" and m0: "maxSize ?new = M"
    using assms(1)
    by (simp_all add: newCacheWith_def cache_inv_def newCacheService_def Map_size_def)
  let ?st = "cache_run ?new calls"
  have inv: "cache_inv ?st" using inv0 by (rule cache_inv_run)
  then show "Map_size (cache ?st) \<le> M" using m0 by (simp add: cache_inv_def)
  {
    assume "Map_size (cache ?st) = M"
    then have "Map_size (cache ?st) = maxSize ?st" using m0 by simp
    with inv show "cache (cache_set ?st sql v ttl now now') =
        Map_set (tl (cache ?st)) (generateKey sql)
          \<lparr>item_value = v,
           expiresAt = now + (case ttl of None \<Rightarrow> defaultTTL ?st | Some t \<Rightarrow> t),
           createdAt = now'\<rparr>"
      by (rule cache_set_evict)
  }
  assume a: "distinct (map (generateKey \<circ> fst) xs) \<and> length xs = M + 1"
  let ?st = "cache_run ?new (stores xs)"
  have k: "map fst (cache ?st) = map (generateKey \<circ> fst) (tl xs)"
    using a inv0 e0 m0 by (intro stores_one_over_capacity) simp_all
  then show "map fst (cache ?st) = map (generateKey \<circ> fst) (tl xs)" .
  have "length (cache ?st) = length (tl xs)" using arg_cong[OF k, of length] by simp
  then show "Map_size (cache ?st) = M" using a by (simp add: Map_size_def)
  obtain x xs' where xs: "xs = x # xs'" using a by (cases xs) auto
  have "generateKey (fst x) \<notin> set (map (generateKey \<circ> fst) xs')" using a xs by auto
  then have "generateKey (fst (hd xs)) \<notin> fst ` set (cache ?st)"
    using k xs by (metis list.sel(1) list.sel(3) list.set_map)
  then show "\<not> Map_has (cache ?st) (generateKey (fst (hd xs)))"
    by (simp add: Map_has_def map_of_eq_None_iff)
qed

text \<open>Facts that evaluate the cache on literals.\<close>

lemmas cache_eval = cache_run_def cache_set_def cache_get_def newCacheWith_def
  newCacheService_def stores_def Map_size_def Map_firstKey_def Map_delete_def Map_get_def
  Map_has_def generateKey_SELECT_1 generateKey_SELECT_2 generateKey_SELECT__1

text \<open>A cache of two entries and three queries with distinct fingerprints.\<close>

theorem cache_capacity_witness:
  "map fst (cache (cache_run (newCacheWith 2 :: nat CacheService)
      (stores [(''SELECT 1'', 10, None, 0, 0), (''SELECT 2'', 20, None, 1, 1),
               (''SELECT  1'', 30, None, 2, 2)])))
   = [''8222fbf4485048374b8751d04bb6c90a'', ''d1f1e7d3280be2cd6a38290d440198fe''] \<and>
   map fst (cache (cache_set (cache_run (newCacheWith 2 :: nat CacheService)
      (stores [(''SELECT 1'', 10, None, 0, 0), (''SELECT 2'', 20, None, 1, 1)]))
      ''SELECT  1'' 30 None 2 2))
   = [''8222fbf4485048374b8751d04bb6c90a'', ''d1f1e7d3280be2cd6a38290d440198fe'']"
proof -
  have "(0::nat) < 2" by simp
  note w = cache_capacity [OF this, where ?'v = nat]
  have 1: "map fst (cache (cache_run (newCacheWith 2 :: nat CacheService)
      (stores [(''SELECT 1'', 10, None, 0, 0), (''SELECT 2'', 20, None, 1, 1),
               (''SELECT  1'', 30, None, 2, 2)])))
   = [''8222fbf4485048374b8751d04bb6c90a'', ''d1f1e7d3280be2cd6a38290d440198fe'']"
    using w [where xs = "[(''SELECT 1'', 10, None, 0, 0), (''SELECT 2'', 20, None, 1, 1),
               (''SELECT  1'', 30, None, 2, 2)]"]
    by (simp add: generateKey_SELECT_1 generateKey_SELECT_2 generateKey_SELECT__1)
  have 2: "map fst (cache (cache_set (cache_run (newCacheWith 2 :: nat CacheService)
      (stores [(''SELECT 1'', 10, None, 0, 0), (''SELECT 2'', 20, None, 1, 1)]))
      ''SELECT  1'' 30 None 2 2))
   = [''8222fbf4485048374b8751d04bb6c90a'', ''d1f1e7d3280be2cd6a38290d440198fe'']"
    using w [where calls = "stores [(''SELECT 1'', 10, None, 0, 0), (''SELECT 2'', 20, None, 1, 1)]"
        and sql = "''SELECT  1''" and v = 30 and ttl = None and now = 2 and now' = 2]
    by (simp add: cache_eval)
  show ?thesis using 1 2 by blast
qed

text \<open>Queries that differ only in leading blanks are distinct and share one key.\<close>

lemma stores_same_key:
  assumes "\<forall>x \<in> set xs. generateKey (fst x) = k" "1 < maxSize this"
    "map fst (cache this) = [k] \<or> (cache this = [] \<and> xs \<noteq> [])"
  shows "map fst (cache (cache_run this (stores xs))) = [k]"
  using assms
proof (induction xs arbitrary: this)
  case Nil
  then show ?case by (simp add: stores_def)
next
  case (Cons x xs)
  obtain sql v ttl now now' where x: "x = (sql, v, ttl, now, now')" by (cases x) auto
  let ?this' = "cache_set this sql v ttl now now'"
  have key: "generateKey sql = k" using Cons.prems(1) x by simp
  have "length (map fst (cache this)) \<le> 1" using Cons.prems(3) by auto
  then have lt: "Map_size (cache this) < maxSize this"
    using Cons.prems(2) by (simp add: Map_size_def)
  have k: "map fst (cache ?this') = [k]"
    unfolding cache_set_no_evict[OF lt] keys_Map_set using Cons.prems(3) key by auto
  have "map fst (cache (cache_run ?this' (stores xs))) = [k]"
    using Cons.prems(1,2) k by (intro Cons.IH) simp_all
  then show ?case using x by (simp add: stores_def)
qed

text \<open>
  Claim C3 as stated fails for queries that are distinct but have one fingerprint: the
  1001 distinct queries that put zero to a thousand blanks before \<open>a\<close>, stored into
  the new cache of 1000 entries, leave one resident entry, and the key of the first
  query is present.
\<close>

theorem cache_same_fingerprint_counterexample:
  "distinct (map (fst \<circ> padded) [0..<1001]) \<and>
   length (map padded [0..<1001]) = maxSize (newCacheService :: nat CacheService) + 1 \<and>
   Map_size (cache (cache_run (newCacheService :: nat CacheService)
      (stores (map padded [0..<1001])))) = 1 \<and>
   Map_has (cache (cache_run (newCacheService :: nat CacheService)
      (stores (map padded [0..<1001])))) (generateKey (fst (padded 0)))"
proof -
  let ?xs = "map padded [0..<1001]"
  let ?st = "cache_run (newCacheService :: nat CacheService) (stores ?xs)"
  have "inj (fst \<circ> padded)"
  proof (rule injI)
    fix m n assume "(fst \<circ> padded) m = (fst \<circ> padded) n"
    then have "length (replicate m CHR '' '' @ ''a'') = length (replicate n CHR '' '' @ ''a'')"
      by (simp add: padded_def)
    then show "m = n" by simp
  qed
  then have "inj_on (fst \<circ> padded) (set [0..<1001])" by (rule inj_on_subset) simp
  then have d: "distinct (map (fst \<circ> padded) [0..<1001])" by (simp add: distinct_map)
  have key: "generateKey (fst (padded n)) = generateKey ''a''" for n
    using generateKey_padding_case [of "replicate n CHR '' ''" "[]" "''a''" "''a''"]
    by (simp add: padded_def isWhiteSpace_def list_all_iff)
  have "map fst (cache ?st) = [generateKey ''a'']"
    by (rule stores_same_key) (auto simp: key newCacheService_def)
  then have "Map_size (cache ?st) = 1" "Map_has (cache ?st) (generateKey ''a'')"
    using arg_cong[of "map fst (cache ?st)" "[generateKey ''a'']" length]
      arg_cong[of "map fst (cache ?st)" "[generateKey ''a'']" set]
    by (auto simp: Map_size_def Map_has_def map_of_eq_None_iff)
  then show ?thesis using d key by (simp add: newCacheService_def)
qed

lemma cache_get_expired:
  assumes "Map_get (cache this) (generateKey q) = Some it" "expiresAt it < now"
  shows "cache_get this q now =
         (None, this\<lparr>cache := Map_delete (cache this) (generateKey q), misses := misses this + 1\<rparr>)"
  using assms by (simp add: cache_get_def Let_def)

lemma cache_set_entry:
  "Map_get (cache (cache_set this q v ttl now now')) (generateKey q) =
   Some \<lparr>item_value = v,
         expiresAt = now + (case ttl of None \<Rightarrow> defaultTTL this | Some t \<Rightarrow> t),
         createdAt = now'\<rparr>"
  by (simp add: cache_set_def Let_def Map_get_set)

lemma misses_cache_set [simp]: "misses (cache_set this q v ttl now now') = misses this"
  by (simp add: cache_set_def Let_def)

text \<open>
  Claim C4, as the code has it. After \<open>set(q, v, 0)\<close> at clock reading \<open>now0\<close>, a
  \<open>get(q)\<close> at a strictly later reading is a miss: it returns \<open>null\<close>, increments
  the miss counter and removes the entry. More generally a \<open>get\<close> at a reading
  strictly past an entry's \<open>expiresAt\<close> is a miss that increments the miss counter
  and removes the entry.
\<close>

theorem cache_expiry:
  "(now0 < now1 \<longrightarrow>
      fst (cache_get (cache_set this q v (Some 0) now0 now0') q now1) = None \<and>
      misses (snd (cache_get (cache_set this q v (Some 0) now0 now0') q now1)) = misses this + 1 \<and>
      \<not> Map_has (cache (snd (cache_get (cache_set this q v (Some 0) now0 now0') q now1)))
           (generateKey q)) \<and>
   (Map_get (cache this) (generateKey q) = Some it \<and> expiresAt it < now \<longrightarrow>
      cache_get this q now =
        (None, this\<lparr>cache := Map_delete (cache this) (generateKey q),
                     misses := misses this + 1\<rparr>) \<and>
      \<not> Map_has (Map_delete (cache this) (generateKey q)) (generateKey q))"
proof (intro conjI impI)
  assume lt: "now0 < now1"
  let ?st = "cache_set this q v (Some 0) now0 now0'"
  let ?it = "\<lparr>item_value = v, expiresAt = now0 + 0, createdAt = now0'\<rparr>"
  have e: "Map_get (cache ?st) (generateKey q) = Some ?it"
    using cache_set_entry[of this q v "Some 0" now0 now0'] by simp
  have g: "cache_get ?st q now1 =
      (None, ?st\<lparr>cache := Map_delete (cache ?st) (generateKey q), misses := misses ?st + 1\<rparr>)"
    using e lt by (simp add: cache_get_def Let_def)
  show "fst (cache_get ?st q now1) = None" by (simp add: g)
  show "misses (snd (cache_get ?st q now1)) = misses this + 1" by (simp add: g)
  show "\<not> Map_has (cache (snd (cache_get ?st q now1))) (generateKey q)"
    by (simp add: g Map_has_delete)
next
  assume "Map_get (cache this) (generateKey q) = Some it \<and> expiresAt it < now"
  then show "cache_get this q now =
        (None, this\<lparr>cache := Map_delete (cache this) (generateKey q),
                     misses := misses this + 1\<rparr>)"
    using cache_get_expired by blast
next
  show "\<not> Map_has (Map_delete (cache this) (generateKey q)) (generateKey q)"
    by (rule Map_has_delete)
qed

text \<open>A zero lifetime read one millisecond later, and the default lifetime read past it.\<close>

theorem cache_expiry_witness:
  "fst (cache_get (cache_set (newCacheService :: nat CacheService) ''SELECT 1'' 7 (Some 0) 5 5)
         ''SELECT 1'' 6) = None \<and>
   misses (snd (cache_get (cache_set (newCacheService :: nat CacheService) ''SELECT 1'' 7 None 0 0)
         ''SELECT 1'' 300001)) = 1"
proof -
  let ?new = "newCacheService :: nat CacheService"
  have 1: "fst (cache_get (cache_set ?new ''SELECT 1'' 7 (Some 0) 5 5) ''SELECT 1'' 6) = None"
    using cache_expiry [where ?now0.0 = 5 and ?now1.0 = 6 and this = ?new and q = "''SELECT 1''"
        and v = 7 and now0' = 5]
    by simp
  have "Map_get (cache (cache_set ?new ''SELECT 1'' 7 None 0 0)) (generateKey ''SELECT 1'') =
        Some \<lparr>item_value = 7, expiresAt = 300000, createdAt = 0\<rparr>"
    using cache_set_entry [of ?new "''SELECT 1''" 7 None 0 0] by (simp add: newCacheService_def)
  then have 2: "misses (snd (cache_get (cache_set ?new ''SELECT 1'' 7 None 0 0)
         ''SELECT 1'' 300001)) = 1"
    using cache_expiry [where this = "cache_set ?new ''SELECT 1'' 7 None 0 0"
        and q = "''SELECT 1''"
        and it = "\<lparr>item_value = 7, expiresAt = 300000, createdAt = 0\<rparr>" and now = 300001]
    by (simp add: newCacheService_def)
  show ?thesis using 1 2 by blast
qed

text \<open>
  Claim C4 as stated fails within the millisecond of the store: \<open>get\<close> tests
  \<open>Date.now() > expiresAt\<close>, so after \<open>set(q, v, 0)\<close> at reading 5 a \<open>get(q)\<close> at
  reading 5 is a hit.
\<close>

theorem cache_same_millisecond_counterexample:
  "fst (cache_get (cache_set (newCacheService :: nat CacheService) ''SELECT 1'' 7 (Some 0) 5 5)
         ''SELECT 1'' 5) = Some 7"
  using cache_set_entry [of "newCacheService :: nat CacheService" "''SELECT 1''" 7 "Some 0" 5 5]
  by (simp add: cache_get_def Let_def)

section \<open>The connection pool\<close>

lemma Map_get_Some_mem: "Map_get m k = Some v \<Longrightarrow> (k, v) \<in> set m"
  by (simp add: Map_get_def map_of_SomeD)

lemma set_Map_set_new: "k \<notin> fst ` set m \<Longrightarrow> Map_set m k v = m @ [(k, v)]"
  by (induction m) auto

lemma Map_get_append_new: "k \<notin> fst ` set m \<Longrightarrow> Map_get (m @ [(k, v)]) k = Some v"
  using Map_get_set[of m k v] by (simp add: set_Map_set_new)

lemma Map_get_None_iff: "Map_get m k = None \<longleftrightarrow> k \<notin> fst ` set m"
  by (simp add: Map_get_def map_of_eq_None_iff)

lemma Map_has_iff: "Map_has m k \<longleftrightarrow> k \<in> fst ` set m"
  by (simp add: Map_has_def map_of_eq_None_iff)

lemma getClient_resident:
  "Map_get (clientPool this) (poolKeyOf cat sch) = Some h \<Longrightarrow> getClient this cat sch = (h, this)"
  by (simp add: getClient_def poolKeyOf_def)

lemma getClient_admit:
  assumes "Map_get (clientPool this) (poolKeyOf cat sch) = None"
    "Map_size (clientPool this) < maxPoolSize this"
  shows "getClient this cat sch =
     (\<lparr>client_id = created this, server = serverUrl this, catalog = cat, schema = sch,
        auth = user this\<rparr>,
      this\<lparr>created := created this + 1,
           clientPool := clientPool this @
             [(poolKeyOf cat sch,
               \<lparr>client_id = created this, server = serverUrl this, catalog = cat, schema = sch,
                 auth = user this\<rparr>)]\<rparr>)"
proof -
  have n: "poolKeyOf cat sch \<notin> fst ` set (clientPool this)"
    using assms(1) by (simp add: Map_get_None_iff)
  show ?thesis
    using assms set_Map_set_new[OF n] by (simp add: getClient_def poolKeyOf_def Let_def)
qed

lemma getClient_full:
  assumes "Map_get (clientPool this) (poolKeyOf cat sch) = None"
    "\<not> Map_size (clientPool this) < maxPoolSize this"
  shows "getClient this cat sch =
     (\<lparr>client_id = created this, server = serverUrl this, catalog = cat, schema = sch,
        auth = user this\<rparr>,
      this\<lparr>created := created this + 1\<rparr>)"
  using assms by (simp add: getClient_def poolKeyOf_def Let_def)

lemma getClient_cases:
  obtains (resident) h where "Map_get (clientPool this) (poolKeyOf cat sch) = Some h"
      "getClient this cat sch = (h, this)"
  | (admit) "Map_get (clientPool this) (poolKeyOf cat sch) = None"
      "Map_size (clientPool this) < maxPoolSize this"
      "getClient this cat sch =
       (\<lparr>client_id = created this, server = serverUrl this, catalog = cat, schema = sch,
          auth = user this\<rparr>,
        this\<lparr>created := created this + 1,
             clientPool := clientPool this @
               [(poolKeyOf cat sch,
                 \<lparr>client_id = created this, server = serverUrl this, catalog = cat,
                   schema = sch, auth = user this\<rparr>)]\<rparr>)"
  | (full) "Map_get (clientPool this) (poolKeyOf cat sch) = None"
      "\<not> Map_size (clientPool this) < maxPoolSize this"
      "getClient this cat sch =
       (\<lparr>client_id = created this, server = serverUrl this, catalog = cat, schema = sch,
          auth = user this\<rparr>,
        this\<lparr>created := created this + 1\<rparr>)"
  using getClient_resident getClient_admit getClient_full
  by (cases "Map_get (clientPool this) (poolKeyOf cat sch)") blast+

lemma pool_inv_new: "pool_inv (newTrinoService url usr)"
  by (simp add: pool_inv_def newTrinoService_def)

lemma pool_inv_getClient:
  assumes "pool_inv this"
  shows "pool_inv (snd (getClient this cat sch))"
proof (cases rule: getClient_cases[of this cat sch])
  case (resident h)
  then show ?thesis using assms by simp
next
  case admit
  have "\<forall>e \<in> set (clientPool this). client_id (snd e) \<noteq> created this"
    using assms by (auto simp: pool_inv_def list_all_iff)
  then have "created this \<notin> (client_id \<circ> snd) ` set (clientPool this)" by auto
  then show ?thesis
    using assms admit(1)
    by (auto simp: admit(3) pool_inv_def Map_get_None_iff list_all_iff less_Suc_eq)
next
  case full
  then show ?thesis using assms by (auto simp: pool_inv_def list_all_iff less_Suc_eq)
qed

lemma pool_inv_getClients: "pool_inv this \<Longrightarrow> pool_inv (getClients this ks)"
  by (induction ks arbitrary: this) (auto simp: pool_inv_getClient)

lemma created_mono: "created this \<le> created (snd (getClient this cat sch))"
  by (cases rule: getClient_cases[of this cat sch]) simp_all

lemma pooled_id_lt:
  "pool_inv this \<Longrightarrow> Map_get (clientPool this) k = Some h \<Longrightarrow> client_id h < created this"
  by (auto simp: pool_inv_def list_all_iff dest!: Map_get_Some_mem)

lemma pooled_ids_differ:
  assumes "pool_inv this" "Map_get (clientPool this) k = Some h"
    "Map_get (clientPool this) k' = Some h'" "k \<noteq> k'"
  shows "client_id h \<noteq> client_id h'"
proof -
  have m: "(k, h) \<in> set (clientPool this)" "(k', h') \<in> set (clientPool this)"
    using assms(2,3) by (auto dest: Map_get_Some_mem)
  have "inj_on (client_id \<circ> snd) (set (clientPool this))"
    using assms(1) by (simp add: pool_inv_def distinct_map)
  then have "(k, h) = (k', h')" if "client_id h = client_id h'"
    using inj_onD[of "client_id \<circ> snd" _ "(k, h)" "(k', h')"] m that by simp
  then show ?thesis using assms(4) by auto
qed

lemma getClient_id_le:
  assumes "pool_inv this"
  shows "client_id (fst (getClient this cat sch)) \<le> created this"
proof (cases rule: getClient_cases[of this cat sch])
  case (resident h)
  then show ?thesis using pooled_id_lt[OF assms resident(1)] by simp
qed simp_all

lemma getClient_twice_same:
  assumes "Map_has (clientPool this) (poolKeyOf cat sch) \<or> Map_size (clientPool this) < maxPoolSize this"
  shows "fst (getClient (snd (getClient this cat sch)) cat sch) = fst (getClient this cat sch)"
proof (cases rule: getClient_cases[of this cat sch])
  case (resident h)
  then show ?thesis by simp
next
  case admit
  let ?c = "\<lparr>client_id = created this, server = serverUrl this, catalog = cat, schema = sch,
      auth = user this\<rparr>"
  have "Map_get (clientPool (snd (getClient this cat sch))) (poolKeyOf cat sch) = Some ?c"
    using admit(1) by (simp add: admit(3) Map_get_append_new Map_get_None_iff)
  then show ?thesis using getClient_resident by (simp add: admit(3))
next
  case full
  then show ?thesis using assms by (simp add: Map_has_def Map_get_def)
qed

lemma getClient_distinct_keys:
  assumes inv: "pool_inv this" and ne: "poolKeyOf c1 s1 \<noteq> poolKeyOf c2 s2"
  shows "client_id (fst (getClient this c1 s1)) \<noteq>
         client_id (fst (getClient (snd (getClient this c1 s1)) c2 s2))"
proof -
  let ?st1 = "snd (getClient this c1 s1)"
  have inv1: "pool_inv ?st1" using inv by (rule pool_inv_getClient)
  show ?thesis
  proof (cases rule: getClient_cases[of ?st1 c2 s2])
    case (resident h2)
    show ?thesis
    proof (cases rule: getClient_cases[of this c1 s1])
      case (resident h1)
      then show ?thesis
        using \<open>Map_get (clientPool ?st1) (poolKeyOf c2 s2) = Some h2\<close>
          \<open>getClient ?st1 c2 s2 = (h2, ?st1)\<close> pooled_ids_differ[OF inv _ _ ne] by simp
    next
      case admit
      let ?c = "\<lparr>client_id = created this, server = serverUrl this, catalog = c1, schema = s1,
        auth = user this\<rparr>"
      have "Map_get (clientPool ?st1) (poolKeyOf c1 s1) = Some ?c"
        using admit(1) by (simp add: admit(3) Map_get_append_new Map_get_None_iff)
      then have "client_id ?c \<noteq> client_id h2"
        using pooled_ids_differ[OF inv1 _ _ ne] resident(1) by blast
      then show ?thesis using resident(2) by (simp add: admit(3))
    next
      case full
      then have "Map_get (clientPool this) (poolKeyOf c2 s2) = Some h2"
        using resident(1) by simp
      then have "client_id h2 < created this" using pooled_id_lt[OF inv] by blast
      then show ?thesis using resident(2) full(3) by simp
    qed
  next
    case admit
    have "client_id (fst (getClient this c1 s1)) < created ?st1"
      using getClient_id_le[OF inv, of c1 s1]
      by (cases rule: getClient_cases[of this c1 s1]) (use pooled_id_lt[OF inv] in auto)
    then show ?thesis by (simp add: admit(3))
  next
    case full
    have "client_id (fst (getClient this c1 s1)) < created ?st1"
      using getClient_id_le[OF inv, of c1 s1]
      by (cases rule: getClient_cases[of this c1 s1]) (use pooled_id_lt[OF inv] in auto)
    then show ?thesis by (simp add: full(3))
  qed
qed

text \<open>
  Claim C5, as the code has it, for every pool that a sequence of \<open>getClient\<close> calls
  has built. Two \<open>getClient\<close> calls for \<open>(c, s)\<close> in sequence return the same
  handle when the key is resident or the pool has room at the first call. Calls for two
  pairs with different pool keys, such as \<open>("c1", "s1")\<close> and \<open>("c2", "s2")\<close>,
  return distinct handles. When the pool is at its capacity of resident keys, the call
  for a non-resident key returns a newly constructed handle for that catalog and
  schema, which is no pooled handle, and leaves the pool as it was.
\<close>

theorem getClient_identity:
  "(let this = getClients (newTrinoService url usr) ks in
     (Map_has (clientPool this) (poolKeyOf cat sch) \<or>
      Map_size (clientPool this) < maxPoolSize this \<longrightarrow>
        fst (getClient (snd (getClient this cat sch)) cat sch) = fst (getClient this cat sch)) \<and>
     (poolKeyOf cat sch \<noteq> poolKeyOf cat' sch' \<longrightarrow>
        client_id (fst (getClient this cat sch)) \<noteq>
        client_id (fst (getClient (snd (getClient this cat sch)) cat' sch'))) \<and>
     client_id (fst (getClient this ''c1'' ''s1'')) \<noteq>
       client_id (fst (getClient (snd (getClient this ''c1'' ''s1'')) ''c2'' ''s2'')) \<and>
     (\<not> Map_has (clientPool this) (poolKeyOf cat sch) \<and>
      \<not> Map_size (clientPool this) < maxPoolSize this \<longrightarrow>
        fst (getClient this cat sch) =
          \<lparr>client_id = created this, server = serverUrl this, catalog = cat, schema = sch,
           auth = user this\<rparr> \<and>
        clientPool (snd (getClient this cat sch)) = clientPool this \<and>
        fst (getClient this cat sch) \<notin> snd ` set (clientPool this)))"
proof -
  define this where "this = getClients (newTrinoService url usr) ks"
  have inv: "pool_inv this"
    unfolding this_def using pool_inv_new by (rule pool_inv_getClients)
  have a: "fst (getClient (snd (getClient this cat sch)) cat sch) = fst (getClient this cat sch)"
    if "Map_has (clientPool this) (poolKeyOf cat sch) \<or>
        Map_size (clientPool this) < maxPoolSize this"
    using that by (rule getClient_twice_same)
  have b: "client_id (fst (getClient this c s)) \<noteq>
           client_id (fst (getClient (snd (getClient this c s)) c' s'))"
    if "poolKeyOf c s \<noteq> poolKeyOf c' s'" for c s c' s'
    using inv that by (rule getClient_distinct_keys)
  have b': "client_id (fst (getClient this ''c1'' ''s1'')) \<noteq>
       client_id (fst (getClient (snd (getClient this ''c1'' ''s1'')) ''c2'' ''s2''))"
    by (rule b) (simp add: poolKeyOf_def)
  have c: "fst (getClient this cat sch) =
          \<lparr>client_id = created this, server = serverUrl this, catalog = cat, schema = sch,
           auth = user this\<rparr> \<and>
        clientPool (snd (getClient this cat sch)) = clientPool this \<and>
        fst (getClient this cat sch) \<notin> snd ` set (clientPool this)"
    if h: "\<not> Map_has (clientPool this) (poolKeyOf cat sch) \<and>
        \<not> Map_size (clientPool this) < maxPoolSize this"
  proof -
    have n: "Map_get (clientPool this) (poolKeyOf cat sch) = None"
      using h by (simp add: Map_has_def Map_get_def)
    have g: "getClient this cat sch =
       (\<lparr>client_id = created this, server = serverUrl this, catalog = cat, schema = sch,
          auth = user this\<rparr>, this\<lparr>created := created this + 1\<rparr>)"
      using n h by (intro getClient_full) simp_all
    have "\<forall>e \<in> set (clientPool this). client_id (snd e) \<noteq> created this"
      using inv by (auto simp: pool_inv_def list_all_iff)
    then have "\<lparr>client_id = created this, server = serverUrl this, catalog = cat, schema = sch,
          auth = user this\<rparr> \<notin> snd ` set (clientPool this)" by force
    then show ?thesis by (simp add: g)
  qed
  show ?thesis unfolding Let_def this_def[symmetric] using a b b' c by blast
qed

text \<open>Facts that evaluate the pool on literals.\<close>

lemmas pool_eval = getClient_def poolKeyOf_def newTrinoService_def tenCatalogs_def
  Map_get_def Map_has_def Map_size_def Let_def

text \<open>The new service, and the service after ten catalogs have filled its pool.\<close>

theorem getClient_identity_witness:
  "fst (getClient (snd (getClient (newTrinoService ''http://trino:8080'' ''admin'') ''c'' ''s''))
         ''c'' ''s'') =
   fst (getClient (newTrinoService ''http://trino:8080'' ''admin'') ''c'' ''s'') \<and>
   client_id (fst (getClient (newTrinoService ''http://trino:8080'' ''admin'') ''c1'' ''s1'')) \<noteq>
   client_id (fst (getClient
     (snd (getClient (newTrinoService ''http://trino:8080'' ''admin'') ''c1'' ''s1''))
     ''c2'' ''s2'')) \<and>
   clientPool (snd (getClient
     (getClients (newTrinoService ''http://trino:8080'' ''admin'') tenCatalogs) ''c'' ''s'')) =
   clientPool (getClients (newTrinoService ''http://trino:8080'' ''admin'') tenCatalogs)"
proof -
  let ?new = "newTrinoService ''http://trino:8080'' ''admin''"
  have 1: "fst (getClient (snd (getClient ?new ''c'' ''s'')) ''c'' ''s'') =
           fst (getClient ?new ''c'' ''s'')"
    using getClient_identity [where url = "''http://trino:8080''" and usr = "''admin''"
        and ks = "[]" and cat = "''c''" and sch = "''s''"]
    by (simp add: Let_def newTrinoService_def Map_size_def)
  have 2: "client_id (fst (getClient ?new ''c1'' ''s1'')) \<noteq>
           client_id (fst (getClient (snd (getClient ?new ''c1'' ''s1'')) ''c2'' ''s2''))"
    using getClient_identity [where url = "''http://trino:8080''" and usr = "''admin''"
        and ks = "[]" and cat = "''c1''" and sch = "''s1''" and cat' = "''c2''" and sch' = "''s2''"]
    by (simp add: Let_def poolKeyOf_def)
  have 3: "clientPool (snd (getClient (getClients ?new tenCatalogs) ''c'' ''s'')) =
           clientPool (getClients ?new tenCatalogs)"
    using getClient_identity [where url = "''http://trino:8080''" and usr = "''admin''"
        and ks = tenCatalogs and cat = "''c''" and sch = "''s''"]
    by (simp add: pool_eval)
  show ?thesis using 1 2 3 by blast
qed

text \<open>
  Claim C5 as stated fails at a full pool: after ten catalogs fill the pool, two calls
  for the non-resident \<open>("c", "s")\<close> in sequence return two different handles.
\<close>

theorem getClient_full_pool_counterexample:
  "fst (getClient (snd (getClient
          (getClients (newTrinoService ''http://trino:8080'' ''admin'') tenCatalogs) ''c'' ''s''))
        ''c'' ''s'') \<noteq>
   fst (getClient (getClients (newTrinoService ''http://trino:8080'' ''admin'') tenCatalogs)
        ''c'' ''s'')"
  by (simp add: pool_eval)

text \<open>
  Claim C10. The pool key is the concatenation \<open>catalog + "." + schema\<close>: for two pairs
  whose concatenations coincide, once a call for the first pair has left the key
  resident, a call for the second pair returns the handle of the first call and leaves
  the service unchanged; when the first call constructed that handle, it carries the
  first pair's catalog and schema.
\<close>

theorem getClient_concatenated_key:
  "(poolKeyOf c1 s1 = poolKeyOf c2 s2 \<and>
    Map_has (clientPool (snd (getClient this c1 s1))) (poolKeyOf c1 s1) \<longrightarrow>
      getClient (snd (getClient this c1 s1)) c2 s2 =
        (fst (getClient this c1 s1), snd (getClient this c1 s1))) \<and>
   (\<not> Map_has (clientPool this) (poolKeyOf c1 s1) \<longrightarrow>
      catalog (fst (getClient this c1 s1)) = c1 \<and> schema (fst (getClient this c1 s1)) = s1)"
proof (intro conjI impI)
  assume h: "poolKeyOf c1 s1 = poolKeyOf c2 s2 \<and>
    Map_has (clientPool (snd (getClient this c1 s1))) (poolKeyOf c1 s1)"
  let ?st1 = "snd (getClient this c1 s1)"
  have "Map_get (clientPool ?st1) (poolKeyOf c1 s1) = Some (fst (getClient this c1 s1))"
  proof (cases rule: getClient_cases[of this c1 s1])
    case (resident h1)
    then show ?thesis by simp
  next
    case admit
    then show ?thesis by (simp add: Map_get_append_new Map_get_None_iff)
  next
    case full
    have "Map_has (clientPool this) (poolKeyOf c1 s1)" using h by (auto simp: full(3))
    then show ?thesis using full(1) by (simp add: Map_has_def Map_get_def)
  qed
  then have "Map_get (clientPool ?st1) (poolKeyOf c2 s2) = Some (fst (getClient this c1 s1))"
    using h by simp
  then show "getClient ?st1 c2 s2 = (fst (getClient this c1 s1), ?st1)"
    by (rule getClient_resident)
next
  assume "\<not> Map_has (clientPool this) (poolKeyOf c1 s1)"
  then have n: "Map_get (clientPool this) (poolKeyOf c1 s1) = None"
    by (simp add: Map_has_def Map_get_def)
  show "catalog (fst (getClient this c1 s1)) = c1" "schema (fst (getClient this c1 s1)) = s1"
    using n by (cases rule: getClient_cases[of this c1 s1]; simp)+
qed

text \<open>The pairs \<open>("a", "b.c")\<close> and \<open>("a.b", "c")\<close> on the new service.\<close>

theorem getClient_concatenated_key_witness:
  "fst (getClient (snd (getClient (newTrinoService ''http://trino:8080'' ''admin'') ''a'' ''b.c''))
         ''a.b'' ''c'') =
   \<lparr>client_id = 0, server = ''http://trino:8080'', catalog = ''a'', schema = ''b.c'',
    auth = ''admin''\<rparr>"
  using getClient_concatenated_key [where this = "newTrinoService ''http://trino:8080'' ''admin''"
      and ?c1.0 = "''a''" and ?s1.0 = "''b.c''" and ?c2.0 = "''a.b''" and ?s2.0 = "''c''"]
  by (simp add: pool_eval)

section \<open>The forecast merge\<close>

lemma findIndexFrom_range:
  "findIndexFrom i p xs = - 1 \<or> (i \<le> findIndexFrom i p xs \<and> findIndexFrom i p xs < i + int (length xs))"
  if "0 \<le> i"
  using that
proof (induction xs arbitrary: i)
  case Nil
  then show ?case by simp
next
  case (Cons x xs)
  have "0 \<le> i + 1" using Cons.prems by simp
  from Cons.IH[OF this] show ?case by auto
qed

lemma findIndex_range: "0 \<le> findIndex p xs \<Longrightarrow> findIndex p xs < int (length xs)"
  using findIndexFrom_range[of 0 p xs] by (auto simp: findIndex_def)

lemma js_index_assign_same: "0 \<le> i \<Longrightarrow> js_index (js_assign row i v) i = v"
  by (auto simp: js_index_def js_assign_def nth_append)

lemma js_index_assign_other: "i \<noteq> j \<Longrightarrow> js_index (js_assign row j v) i = js_index row i"
  by (auto simp: js_index_def js_assign_def nth_append nth_Cons')

lemma js_index_snoc: "js_index row i \<noteq> Undefined \<Longrightarrow> js_index (row @ [v]) i = js_index row i"
  by (auto simp: js_index_def nth_append split: if_splits)

lemma js_index_replicate_Null:
  "0 \<le> i \<Longrightarrow> nat i < n \<Longrightarrow> js_index (replicate n Null) i = Null"
  by (simp add: js_index_def)

text \<open>
  Claim C7. Merging the historical rows \<open>("2025-01-01", 100)\<close>, \<open>("2025-01-02", 110)\<close>
  with the predictions \<open>("2025-01-02", 999)\<close>, \<open>("2025-01-03", 120)\<close> yields exactly
  three rows: the row for 2025-01-02 carries the historical value 110 in the appended
  Forecast column, the prediction 999 for that date is dropped, and the row for
  2025-01-03 has a null value column and 120 in the Forecast column.
\<close>

theorem forecastMerge_example:
  "forecastMerge pfs
     \<lparr>columns = [''date'', ''value''],
      rows = [[Str ''2025-01-01'', Num (Fin 100)], [Str ''2025-01-02'', Num (Fin 110)]]\<rparr>
     [\<lparr>pred_date = Str ''2025-01-02'', pred_value = Num (Fin 999)\<rparr>,
      \<lparr>pred_date = Str ''2025-01-03'', pred_value = Num (Fin 120)\<rparr>]
   = \<lparr>columns = [''date'', ''value'', ''Forecast''],
      rows = [[Str ''2025-01-01'', Num (Fin 100), Null],
              [Str ''2025-01-02'', Num (Fin 110), Num (Fin 110)],
              [Str ''2025-01-03'', Null, Num (Fin 120)]]\<rparr>"
proof -
  have d: "dateColIdxOf \<lparr>columns = [''date'', ''value''],
      rows = [[Str ''2025-01-01'', Num (Fin 100)], [Str ''2025-01-02'', Num (Fin 110)]]\<rparr> = 0"
    by (simp add: dateColIdxOf_def findIndex_def toLowerCase_def lowerChar_def)
  have v: "valueColIdxOf pfs \<lparr>columns = [''date'', ''value''],
      rows = [[Str ''2025-01-01'', Num (Fin 100)], [Str ''2025-01-02'', Num (Fin 110)]]\<rparr> = 1"
    by (simp add: valueColIdxOf_def d findIndex_def js_index_def isNaN_def)
  have h: "validHistoricalRows pfs \<lparr>columns = [''date'', ''value''],
      rows = [[Str ''2025-01-01'', Num (Fin 100)], [Str ''2025-01-02'', Num (Fin 110)]]\<rparr>
      = [[Str ''2025-01-01'', Num (Fin 100)], [Str ''2025-01-02'', Num (Fin 110)]]"
    by (simp add: validHistoricalRows_def d v js_index_def)
  show ?thesis
    by (simp add: forecastMerge_def Let_def d v h js_index_def js_assign_def)
qed

lemma rows_forecastMerge_Nil_length:
  "length (rows (forecastMerge pfs results [])) = length (validHistoricalRows pfs results)"
  by (simp add: forecastMerge_def Let_def)

lemma rows_forecastMerge_split:
  "rows (forecastMerge pfs results predictions) =
     rows (forecastMerge pfs results []) @
     map (\<lambda>pred.
            js_assign
              (js_assign (replicate (length (columns results) + 1) Null) (dateColIdxOf results)
                 (pred_date pred))
              (int (length (columns results))) (pred_value pred))
       (filter (\<lambda>pred. pred_date pred \<notin>
            set (map (\<lambda>row. js_index row (dateColIdxOf results)) (validHistoricalRows pfs results)))
          predictions)"
  by (simp add: forecastMerge_def Let_def)

lemma valid_date_defined:
  "row \<in> set (validHistoricalRows pfs results) \<Longrightarrow>
   js_index row (dateColIdxOf results) \<noteq> Undefined"
  by (auto simp: validHistoricalRows_def)

lemma dates_forecastMerge_Nil:
  assumes "0 \<le> dateColIdxOf results"
  shows "map (\<lambda>row. js_index row (dateColIdxOf results)) (rows (forecastMerge pfs results [])) =
         map (\<lambda>row. js_index row (dateColIdxOf results)) (validHistoricalRows pfs results)"
proof -
  let ?d = "dateColIdxOf results" and ?v = "validHistoricalRows pfs results"
  let ?n = "int (length (columns results @ [''Forecast''])) - 1"
  have dn: "?d \<noteq> ?n"
    using findIndex_range[of "\<lambda>c i. str_includes (toLowerCase c) ''date''" "columns results"] assms
    by (simp add: dateColIdxOf_def)
  have ext: "map (\<lambda>row. js_index row ?d) (map (\<lambda>row. row @ [Null]) ?v) = map (\<lambda>row. js_index row ?d) ?v"
    using valid_date_defined[of _ pfs results] by (simp add: js_index_snoc)
  show ?thesis
  proof (cases "?v = []")
    case True
    then show ?thesis by (simp add: forecastMerge_def Let_def)
  next
    case False
    let ?new = "map (\<lambda>row. row @ [Null]) ?v"
    have ne: "?new \<noteq> []" using False by simp
    have r: "rows (forecastMerge pfs results []) =
        butlast ?new @ [js_assign (last ?new) ?n
           (Num (parseFloat pfs (js_index (last ?new) (valueColIdxOf pfs results))))]"
      using False by (simp add: forecastMerge_def Let_def)
    have "map (\<lambda>row. js_index row ?d) (rows (forecastMerge pfs results [])) =
          map (\<lambda>row. js_index row ?d) (butlast ?new @ [last ?new])"
      unfolding r using dn by (simp add: js_index_assign_other)
    also have "\<dots> = map (\<lambda>row. js_index row ?d) ?new"
      by (subst append_butlast_last_id[OF ne]) (rule refl)
    finally show ?thesis using ext by simp
  qed
qed

lemma distinct_append_filter:
  "distinct xs \<Longrightarrow> distinct ys \<Longrightarrow> distinct (xs @ filter (\<lambda>y. y \<notin> set xs) ys)"
  by auto

text \<open>
  Claim C2, as the code has it. The merged output has at most as many rows as the
  historical result plus the prediction points supplied. Its historical part does not
  depend on the predictions. When a date column is found, the dates of the output are
  the dates of the retained historical rows followed by those prediction dates that are
  not among them: a prediction whose date equals a retained historical date is dropped.
  If moreover the retained historical dates are pairwise distinct and the prediction
  dates are pairwise distinct, no two rows of the output carry the same date.
\<close>

theorem forecastMerge_rows:
  "length (rows (forecastMerge pfs results predictions)) \<le>
     length (rows results) + length predictions \<and>
   take (length (validHistoricalRows pfs results)) (rows (forecastMerge pfs results predictions)) =
     rows (forecastMerge pfs results []) \<and>
   (0 \<le> dateColIdxOf results \<longrightarrow>
      map (\<lambda>row. js_index row (dateColIdxOf results)) (rows (forecastMerge pfs results predictions)) =
        map (\<lambda>row. js_index row (dateColIdxOf results)) (validHistoricalRows pfs results) @
        filter (\<lambda>date. date \<notin> set (map (\<lambda>row. js_index row (dateColIdxOf results))
                                       (validHistoricalRows pfs results)))
          (map pred_date predictions)) \<and>
   (0 \<le> dateColIdxOf results \<and>
    distinct (map (\<lambda>row. js_index row (dateColIdxOf results)) (validHistoricalRows pfs results)) \<and>
    distinct (map pred_date predictions) \<longrightarrow>
      distinct (map (\<lambda>row. js_index row (dateColIdxOf results))
                 (rows (forecastMerge pfs results predictions))))"
proof -
  let ?d = "dateColIdxOf results" and ?v = "validHistoricalRows pfs results"
  let ?out = "rows (forecastMerge pfs results predictions)"
  let ?ex = "map (\<lambda>row. js_index row ?d) ?v"
  have lv: "length ?v \<le> length (rows results)" by (simp add: validHistoricalRows_def)
  have 1: "length ?out \<le> length (rows results) + length predictions"
  proof -
    have "length ?out \<le> length ?v + length predictions"
      unfolding rows_forecastMerge_split[of pfs results predictions]
      by (simp add: rows_forecastMerge_Nil_length le_trans[OF length_filter_le])
    then show ?thesis using lv by simp
  qed
  have 2: "take (length ?v) ?out = rows (forecastMerge pfs results [])"
    unfolding rows_forecastMerge_split[of pfs results predictions]
    by (simp add: rows_forecastMerge_Nil_length)
  have 3: "map (\<lambda>row. js_index row ?d) ?out = ?ex @ filter (\<lambda>date. date \<notin> set ?ex) (map pred_date predictions)"
    if d0: "0 \<le> ?d"
  proof -
    have dn: "?d \<noteq> int (length (columns results))"
      using findIndex_range[of "\<lambda>c i. str_includes (toLowerCase c) ''date''" "columns results"] d0
      by (simp add: dateColIdxOf_def)
    have p: "js_index (js_assign (js_assign (Null # replicate (length (columns results)) Null) ?d x)
               (int (length (columns results))) y) ?d = x" for x y
      using dn d0 by (simp add: js_index_assign_other js_index_assign_same)
    show ?thesis
      unfolding rows_forecastMerge_split[of pfs results predictions]
      using dates_forecastMerge_Nil[OF d0, of pfs]
      by (simp add: p comp_def filter_map)
  qed
  have 4: "distinct (map (\<lambda>row. js_index row ?d) ?out)"
    if "0 \<le> ?d \<and> distinct ?ex \<and> distinct (map pred_date predictions)"
    using that 3 distinct_append_filter[of ?ex "map pred_date predictions"] by simp
  show ?thesis using 1 2 3 4 by blast
qed

text \<open>The columns found in the daily sales.\<close>

lemma dailySales_idx:
  "dateColIdxOf dailySales = 0" "valueColIdxOf pfs dailySales = 1"
  "validHistoricalRows pfs dailySales = rows dailySales"
proof -
  show d: "dateColIdxOf dailySales = 0"
    by (simp add: dailySales_def dateColIdxOf_def findIndex_def toLowerCase_def lowerChar_def)
  show v: "valueColIdxOf pfs dailySales = 1"
    by (simp add: valueColIdxOf_def d findIndex_def) (simp add: dailySales_def js_index_def isNaN_def)
  show "validHistoricalRows pfs dailySales = rows dailySales"
    by (simp add: validHistoricalRows_def d v) (simp add: dailySales_def js_index_def)
qed

text \<open>The daily sales merged with the two predictions of the example.\<close>

theorem forecastMerge_rows_witness:
  "map (\<lambda>row. js_index row 0)
     (rows (forecastMerge (\<lambda>s. NaN) dailySales
        [\<lparr>pred_date = Str ''2025-01-02'', pred_value = Num (Fin 999)\<rparr>,
         \<lparr>pred_date = Str ''2025-01-03'', pred_value = Num (Fin 120)\<rparr>]))
   = [Str ''2025-01-01'', Str ''2025-01-02'', Str ''2025-01-03''] \<and>
   distinct (map (\<lambda>row. js_index row 0)
     (rows (forecastMerge (\<lambda>s. NaN) dailySales
        [\<lparr>pred_date = Str ''2025-01-02'', pred_value = Num (Fin 999)\<rparr>,
         \<lparr>pred_date = Str ''2025-01-03'', pred_value = Num (Fin 120)\<rparr>])))"
  using forecastMerge_rows [of "\<lambda>s. NaN" dailySales
      "[\<lparr>pred_date = Str ''2025-01-02'', pred_value = Num (Fin 999)\<rparr>,
        \<lparr>pred_date = Str ''2025-01-03'', pred_value = Num (Fin 120)\<rparr>]"]
  by (simp add: dailySales_idx) (simp add: dailySales_def js_index_def)

text \<open>
  Claim C2 as stated fails when the history itself repeats a date: the merge keeps both
  rows of the sales by brand, and they carry the same date.
\<close>

theorem forecastMerge_duplicate_dates_counterexample:
  "map (\<lambda>row. js_index row 0) (rows (forecastMerge (\<lambda>s. NaN) brandSales [])) =
     [Str ''2025-01-01'', Str ''2025-01-01''] \<and>
   \<not> distinct (map (\<lambda>row. js_index row 0) (rows (forecastMerge (\<lambda>s. NaN) brandSales [])))"
proof -
  have d: "dateColIdxOf brandSales = 0"
    by (simp add: brandSales_def dateColIdxOf_def findIndex_def toLowerCase_def lowerChar_def)
  have v: "valueColIdxOf (\<lambda>s. NaN) brandSales = 2"
    by (simp add: valueColIdxOf_def d findIndex_def) (simp add: brandSales_def js_index_def isNaN_def)
  have h: "validHistoricalRows (\<lambda>s. NaN) brandSales = rows brandSales"
    by (simp add: validHistoricalRows_def d v) (simp add: brandSales_def js_index_def)
  have "map (\<lambda>row. js_index row 0) (rows (forecastMerge (\<lambda>s. NaN) brandSales [])) =
     [Str ''2025-01-01'', Str ''2025-01-01'']"
    by (simp add: forecastMerge_def Let_def d v h) (simp add: brandSales_def js_index_def js_assign_def)
  then show ?thesis by simp
qed

section \<open>The linear-regression forecast\<close>

text \<open>Facts that evaluate the forecast on literals.\<close>

lemmas detect_eval = toLowerCase_def lowerChar_def Let_def js_index_def isNaN_def

lemma threePoints_columns:
  "detectColumns pfs (threePoints d0 d1 d2) [''date'', ''value''] 0 (- 1, - 1) = (0, 1)"
  by (simp add: threePoints_def detect_eval)

lemma sameDay_columns:
  "detectColumns pfs sameDay [''date'', ''value''] 0 (- 1, - 1) = (0, 1)"
  by (simp add: sameDay_def detect_eval)

lemmas point_eval = List.map_filter_def toPoint_def js_index_def isNaN_def sortPoints_def
  num_sub_def Let_def

lemmas regression_eval = linearRegression_def denominator_def regressionSums_def
  avgInterval_def num_sub_def inf_of_def Let_def

lemma threePoints_data:
  assumes "d0 \<noteq> []" "d1 \<noteq> []" "d2 \<noteq> []"
    "getTime (Str d0) = Fin 0" "getTime (Str d1) = Fin 1" "getTime (Str d2) = Fin 2"
  shows "dataPointsOf pfs getTime [''date'', ''value''] (threePoints d0 d1 d2) =
         [\<lparr>pt_x = Fin 0, pt_y = Fin 10\<rparr>, \<lparr>pt_x = Fin 1, pt_y = Fin 20\<rparr>,
          \<lparr>pt_x = Fin 2, pt_y = Fin 30\<rparr>]"
  unfolding dataPointsOf_def threePoints_columns
  using assms by (simp add: threePoints_def point_eval)

text \<open>
  Claim C9. For rows whose dates have the time values 0, 1 and 2 and whose values are
  10, 20 and 30, and two periods, the regression has slope 10 and intercept 10, the
  average interval is 1, and exactly two rows are appended, with the forecast 40 at
  time 3 and 50 at time 4. (Every intermediate value is a small integer, so the exact
  arithmetic of the model is the arithmetic of the runtime.)
\<close>

theorem calculateForecast_three_points:
  "d0 \<noteq> [] \<and> d1 \<noteq> [] \<and> d2 \<noteq> [] \<and>
   getTime (Str d0) = Fin 0 \<and> getTime (Str d1) = Fin 1 \<and> getTime (Str d2) = Fin 2 \<and>
   isoDate (Fin 3) = Some f3 \<and> isoDate (Fin 4) = Some f4 \<longrightarrow>
     linearRegression (dataPointsOf pfs getTime [''date'', ''value''] (threePoints d0 d1 d2)) =
       (Fin 10, Fin 10) \<and>
     avgInterval (dataPointsOf pfs getTime [''date'', ''value''] (threePoints d0 d1 d2)) = Fin 1 \<and>
     calculateForecast pfs getTime isoDate [''date'', ''value''] (threePoints d0 d1 d2) 2 =
       Inr (Some \<lparr>columns = [''date'', ''value'', ''Forecast''],
                  rows = [[Str d0, Num (Fin 10), Null], [Str d1, Num (Fin 20), Null],
                          [Str d2, Num (Fin 30), Num (Fin 30)],
                          [Str f3, Null, Num (Fin 40)], [Str f4, Null, Num (Fin 50)]]\<rparr>)"
proof (intro impI)
  assume a: "d0 \<noteq> [] \<and> d1 \<noteq> [] \<and> d2 \<noteq> [] \<and>
   getTime (Str d0) = Fin 0 \<and> getTime (Str d1) = Fin 1 \<and> getTime (Str d2) = Fin 2 \<and>
   isoDate (Fin 3) = Some f3 \<and> isoDate (Fin 4) = Some f4"
  let ?pts = "dataPointsOf pfs getTime [''date'', ''value''] (threePoints d0 d1 d2)"
  have pts: "?pts = [\<lparr>pt_x = Fin 0, pt_y = Fin 10\<rparr>, \<lparr>pt_x = Fin 1, pt_y = Fin 20\<rparr>,
          \<lparr>pt_x = Fin 2, pt_y = Fin 30\<rparr>]"
    using a by (intro threePoints_data) simp_all
  have lr: "linearRegression ?pts = (Fin 10, Fin 10)"
    unfolding pts by (simp add: regression_eval)
  have av: "avgInterval ?pts = Fin 1"
    unfolding pts by (simp add: regression_eval)
  note det = threePoints_columns
  have raw: "length (List.map_filter (toPoint pfs getTime 0 1) (threePoints d0 d1 d2)) = 3"
    using a by (simp add: threePoints_def List.map_filter_def toPoint_def js_index_def isNaN_def)
  have lr': "linearRegression [\<lparr>pt_x = Fin 0, pt_y = Fin 10\<rparr>, \<lparr>pt_x = Fin 1, pt_y = Fin 20\<rparr>,
          \<lparr>pt_x = Fin 2, pt_y = Fin 30\<rparr>] = (Fin 10, Fin 10)"
    using lr pts by simp
  have av': "avgInterval [\<lparr>pt_x = Fin 0, pt_y = Fin 10\<rparr>, \<lparr>pt_x = Fin 1, pt_y = Fin 20\<rparr>,
          \<lparr>pt_x = Fin 2, pt_y = Fin 30\<rparr>] = Fin 1"
    using av pts by simp
  have cf: "calculateForecast pfs getTime isoDate [''date'', ''value''] (threePoints d0 d1 d2) 2 =
       Inr (Some \<lparr>columns = [''date'', ''value'', ''Forecast''],
                  rows = [[Str d0, Num (Fin 10), Null], [Str d1, Num (Fin 20), Null],
                          [Str d2, Num (Fin 30), Num (Fin 30)],
                          [Str f3, Null, Num (Fin 40)], [Str f4, Null, Num (Fin 50)]]\<rparr>)"
    unfolding calculateForecast_def det
    using a
    by (simp add: raw pts lr' av' Let_def numeral_2_eq_2) (simp add: threePoints_def js_assign_def)
  show "linearRegression ?pts = (Fin 10, Fin 10) \<and> avgInterval ?pts = Fin 1 \<and>
     calculateForecast pfs getTime isoDate [''date'', ''value''] (threePoints d0 d1 d2) 2 =
       Inr (Some \<lparr>columns = [''date'', ''value'', ''Forecast''],
                  rows = [[Str d0, Num (Fin 10), Null], [Str d1, Num (Fin 20), Null],
                          [Str d2, Num (Fin 30), Num (Fin 30)],
                          [Str f3, Null, Num (Fin 40)], [Str f4, Null, Num (Fin 50)]]\<rparr>)"
    using lr av cf by blast
qed

text \<open>The first three milliseconds of 1970 as dates.\<close>

theorem calculateForecast_three_points_witness:
  "calculateForecast (\<lambda>s. NaN) epochTime (\<lambda>t. Some ''1970-01-01'') [''date'', ''value'']
     (threePoints ''1970-01-01T00:00:00.000Z'' ''1970-01-01T00:00:00.001Z''
        ''1970-01-01T00:00:00.002Z'') 2 =
   Inr (Some \<lparr>columns = [''date'', ''value'', ''Forecast''],
              rows = [[Str ''1970-01-01T00:00:00.000Z'', Num (Fin 10), Null],
                      [Str ''1970-01-01T00:00:00.001Z'', Num (Fin 20), Null],
                      [Str ''1970-01-01T00:00:00.002Z'', Num (Fin 30), Num (Fin 30)],
                      [Str ''1970-01-01'', Null, Num (Fin 40)],
                      [Str ''1970-01-01'', Null, Num (Fin 50)]]\<rparr>)"
  using calculateForecast_three_points [of "''1970-01-01T00:00:00.000Z''"
      "''1970-01-01T00:00:00.001Z''" "''1970-01-01T00:00:00.002Z''" epochTime
      "\<lambda>t. Some ''1970-01-01''" "''1970-01-01''" "''1970-01-01''" "\<lambda>s. NaN"]
  by (simp add: epochTime_def)

text \<open>
  Two rows with one date: the sums give the denominator \<open>n * sumXX - sumX * sumX = 0\<close>
  and the slope is \<open>0 / 0\<close>, which is NaN.
\<close>

lemma sameDay_points:
  "dataPointsOf pfs getTime [''date'', ''value''] sameDay =
     [\<lparr>pt_x = getTime (Str ''2025-01-01''), pt_y = Fin 1\<rparr>,
      \<lparr>pt_x = getTime (Str ''2025-01-01''), pt_y = Fin 2\<rparr>]"
  unfolding dataPointsOf_def sameDay_columns
  by (cases "getTime (Str ''2025-01-01'')") (simp_all add: sameDay_def point_eval)

lemma sameDay_slope:
  "linearRegression (dataPointsOf pfs getTime [''date'', ''value''] sameDay) = (NaN, NaN)"
  unfolding sameDay_points
  by (cases "getTime (Str ''2025-01-01'')")
    (simp_all add: regression_eval)

lemma sameDay_denominator:
  "getTime (Str ''2025-01-01'') = Fin t \<Longrightarrow>
   denominator (dataPointsOf pfs getTime [''date'', ''value''] sameDay) = Fin 0"
  unfolding sameDay_points
  by (simp add: regression_eval algebra_simps)

lemma futureRows_not_null:
  "(case futureRows isoDate w d sl ic st x k of Inl e \<Rightarrow> Inl e | Inr future \<Rightarrow> Inr (Some (f future)))
   \<noteq> Inr None"
  by (cases "futureRows isoDate w d sl ic st x k") simp_all

text \<open>
  Claim C8 at an input with zero variance in the time values: two usable rows on one
  day. \<open>calculateForecast\<close> does not return \<open>null\<close>; it divides by the zero
  denominator and goes on with a NaN slope and intercept, whatever the runtime's date
  functions are.
\<close>

theorem calculateForecast_zero_variance:
  "calculateForecast pfs getTime isoDate [''date'', ''value''] sameDay periods \<noteq> Inr None \<and>
   linearRegression (dataPointsOf pfs getTime [''date'', ''value''] sameDay) = (NaN, NaN)"
proof -
  note det = sameDay_columns
  have raw: "length (List.map_filter (toPoint pfs getTime 0 1) sameDay) = 2"
    by (simp add: sameDay_def List.map_filter_def toPoint_def js_index_def isNaN_def)
  have len: "length sameDay = 2" by (simp add: sameDay_def)
  have "calculateForecast pfs getTime isoDate [''date'', ''value''] sameDay periods \<noteq> Inr None"
    unfolding calculateForecast_def det
    by (simp add: raw len sameDay_slope Let_def futureRows_not_null)
  then show ?thesis using sameDay_slope by simp
qed

end
